theory Spec2Isabelle
  imports Main "HOL-Library.AList" "HOL-Library.Multiset"
begin

section \<open>Platform values consumed by the cache\<close>

text \<open>
  The cache is written against browser facilities that are not part of the
  repository: the URL parser, the JSON codec, the \<^verbatim>\<open>Response\<close> constructor and the
  origin private file system. The parser, the codec and the constructor's grammar of
  status texts and headers are taken as parameters (record \<open>platform\<close>); the
  constructor's checks of the status and the file system are modelled further below.
\<close>

datatype error =
    TypeError
  | RangeError
  | NotFoundError
  | TypeMismatchError
  | InvalidModificationError
  | SyntaxError
  | GenericError

text \<open>\<^verbatim>\<open>isNotFound\<close> of fs.ts: a DOMException named NotFoundError.\<close>

definition isNotFound :: "error \<Rightarrow> bool" where
  "isNotFound err = (err = NotFoundError)"

text \<open>A parsed URL, reduced to the two fields \<^verbatim>\<open>resolvePath\<close> reads.\<close>

record url =
  pathname :: string
  search :: string

text \<open>
  \<^verbatim>\<open>CacheEntryMeta\<close> (types.ts is only imported as a type; the fields are the ones
  \<^verbatim>\<open>put\<close> writes and \<^verbatim>\<open>match\<close> reads).
\<close>

record cache_entry_meta =
  headers :: "(string \<times> string) list"
  status :: int
  statusText :: string

record platform =
  url_parse :: "string \<Rightarrow> url option"
  json_stringify :: "cache_entry_meta \<Rightarrow> string"
  json_parse :: "string \<Rightarrow> cache_entry_meta option"
  reason_phrase :: "string \<Rightarrow> bool"
  header_entry :: "string \<times> string \<Rightarrow> bool"

text \<open>
  \<open>url_parse P s = None\<close> stands for \<^verbatim>\<open>URL.canParse(s) === false\<close> (and for
  \<^verbatim>\<open>new URL(s)\<close> throwing a TypeError); \<open>json_parse P t = None\<close> stands for
  \<^verbatim>\<open>JSON.parse(t)\<close> throwing a SyntaxError. \<open>reason_phrase P t\<close> says that \<open>t\<close> is a
  status text the \<^verbatim>\<open>Response\<close> constructor accepts, and \<open>header_entry P (n, v)\<close>
  that it accepts the header of name \<open>n\<close> and value \<open>v\<close>.
\<close>

text \<open>
  The key argument of the four cache operations (\<^verbatim>\<open>RequestInfo | URL\<close>): a string,
  a \<^verbatim>\<open>Request\<close> (carrying its \<^verbatim>\<open>url\<close> string), a \<^verbatim>\<open>URL\<close> object, or any
  other JavaScript value.
\<close>

datatype request = Str string | Req string | UrlV url | Other

section \<open>Path resolution (path.ts)\<close>

text \<open>\<^verbatim>\<open>ResolvedPath\<close>: the fields \<^verbatim>\<open>dir\<close> and \<^verbatim>\<open>file\<close>.\<close>

record resolved_path =
  rdir :: "string list"
  rfile :: string

text \<open>\<^verbatim>\<open>String.prototype.split\<close> with a one-character separator.\<close>

fun js_split :: "char \<Rightarrow> string \<Rightarrow> string list" where
  "js_split sep [] = [[]]"
| "js_split sep (c # cs) =
     (if c = sep then [] # js_split sep cs
      else (case js_split sep cs of
              [] \<Rightarrow> [[c]]
            | w # ws \<Rightarrow> (c # w) # ws))"

text \<open>\<^verbatim>\<open>String.prototype.indexOf\<close> for one character; \<open>None\<close> is the result -1.\<close>

definition indexOf :: "string \<Rightarrow> char \<Rightarrow> nat option" where
  "indexOf s c =
     (if c \<in> set s then Some (length (takeWhile (\<lambda>x. x \<noteq> c) s)) else None)"

text \<open>
  Lines 10 to 37 of \<^verbatim>\<open>resolvePath\<close>: the pathname and the search string of the key,
  or the TypeError of an unsupported key.
\<close>

definition pathname_search :: "platform \<Rightarrow> request \<Rightarrow> error + (string \<times> string)" where
  "pathname_search P request =
     (case request of
        Str s \<Rightarrow>
          (case url_parse P s of
             Some u \<Rightarrow> Inr (pathname u, search u)
           | None \<Rightarrow>
               (case indexOf s (CHR ''?'') of
                  None \<Rightarrow> Inr (s, [])
                | Some qIndex \<Rightarrow> Inr (take qIndex s, drop qIndex s)))
      | Req r \<Rightarrow>
          (case url_parse P r of
             Some u \<Rightarrow> Inr (pathname u, search u)
           | None \<Rightarrow> Inl TypeError)
      | UrlV u \<Rightarrow> Inr (pathname u, search u)
      | Other \<Rightarrow> Inl TypeError)"

text \<open>Line 39: \<^verbatim>\<open>pathname.split("/").filter((s) => s.length > 0)\<close>.\<close>

definition path_segments :: "string \<Rightarrow> string list" where
  "path_segments p = filter (\<lambda>s. length s > 0) (js_split (CHR ''/'') p)"

definition resolvePath :: "platform \<Rightarrow> request \<Rightarrow> error + resolved_path" where
  "resolvePath P request =
     (case pathname_search P request of
        Inl e \<Rightarrow> Inl e
      | Inr (p, q) \<Rightarrow>
          (let segments = path_segments p in
           if length segments = 0 then Inl TypeError
           else if list_ex (\<lambda>seg. seg = ''.'' \<or> seg = ''..'') segments then Inl TypeError
           else Inr \<lparr>rdir = butlast segments, rfile = last segments @ q\<rparr>))"

section \<open>The origin private file system\<close>

text \<open>
  The storage the adapter consumes, as its contract is used by fs.ts: a tree of named
  entries, each a file (its bytes) or a directory (its entries, in iteration order).
  The state of the model is the content of the cache's root directory, the directory
  \<^verbatim>\<open>getRoot\<close> returns. A directory handle is the path that leads to it from this
  root; a file handle is the handle of its directory and its name. Every string is
  accepted as a name: the platform's own check of entry names is not part of the
  model.
\<close>

datatype node = File string | Dir "(string \<times> node) list"

type_synonym dirents = "(string \<times> node) list"

type_synonym handle = "string list"

type_synonym fhandle = "handle \<times> string"

text \<open>
  An operation on the storage returns a value or throws, and leaves a storage state
  either way.
\<close>

type_synonym 'a io = "dirents \<Rightarrow> (error + 'a) \<times> dirents"

text \<open>The directory a handle denotes, if it (still) exists.\<close>

fun get_dir :: "dirents \<Rightarrow> handle \<Rightarrow> dirents option" where
  "get_dir d [] = Some d"
| "get_dir d (n # ns) =
     (case map_of d n of
        Some (Dir sub) \<Rightarrow> get_dir sub ns
      | _ \<Rightarrow> None)"

text \<open>The storage after the directory a handle denotes has been changed by \<open>f\<close>.\<close>

fun upd_dir :: "handle \<Rightarrow> (dirents \<Rightarrow> dirents) \<Rightarrow> dirents \<Rightarrow> dirents" where
  "upd_dir [] f d = f d"
| "upd_dir (n # ns) f d =
     (case map_of d n of
        Some (Dir sub) \<Rightarrow> AList.update n (Dir (upd_dir ns f sub)) d
      | _ \<Rightarrow> d)"

text \<open>
  \<^verbatim>\<open>FileSystemDirectoryHandle.getDirectoryHandle(name, { create })\<close>: the handle of
  the subdirectory; a missing one is created when \<open>create\<close> is set and is a
  NotFoundError otherwise; a file of that name is a TypeMismatchError.
\<close>

definition getDirectoryHandle :: "handle \<Rightarrow> string \<Rightarrow> bool \<Rightarrow> handle io" where
  "getDirectoryHandle h name create s =
     (case get_dir s h of
        None \<Rightarrow> (Inl NotFoundError, s)
      | Some d \<Rightarrow>
          (case map_of d name of
             Some (Dir sub) \<Rightarrow> (Inr (h @ [name]), s)
           | Some (File c) \<Rightarrow> (Inl TypeMismatchError, s)
           | None \<Rightarrow>
               if create
               then (Inr (h @ [name]), upd_dir h (AList.update name (Dir [])) s)
               else (Inl NotFoundError, s)))"

text \<open>\<^verbatim>\<open>FileSystemDirectoryHandle.getFileHandle(name, { create })\<close>, likewise.\<close>

definition getFileHandle :: "handle \<Rightarrow> string \<Rightarrow> bool \<Rightarrow> fhandle io" where
  "getFileHandle h name create s =
     (case get_dir s h of
        None \<Rightarrow> (Inl NotFoundError, s)
      | Some d \<Rightarrow>
          (case map_of d name of
             Some (File c) \<Rightarrow> (Inr (h, name), s)
           | Some (Dir sub) \<Rightarrow> (Inl TypeMismatchError, s)
           | None \<Rightarrow>
               if create
               then (Inr (h, name), upd_dir h (AList.update name (File [])) s)
               else (Inl NotFoundError, s)))"

text \<open>\<^verbatim>\<open>FileSystemFileHandle.getFile()\<close>, read to its end: the bytes of the file.\<close>

definition getFile :: "fhandle \<Rightarrow> string io" where
  "getFile fh s =
     (case get_dir s (fst fh) of
        None \<Rightarrow> (Inl NotFoundError, s)
      | Some d \<Rightarrow>
          (case map_of d (snd fh) of
             Some (File c) \<Rightarrow> (Inr c, s)
           | _ \<Rightarrow> (Inl NotFoundError, s)))"

text \<open>
  \<^verbatim>\<open>createWritable()\<close>, the writes and the closing \<^verbatim>\<open>close()\<close>: the file's
  content is replaced by what was written when the stream is closed.
\<close>

definition writeAndClose :: "fhandle \<Rightarrow> string \<Rightarrow> unit io" where
  "writeAndClose fh content s =
     (case get_dir s (fst fh) of
        None \<Rightarrow> (Inl NotFoundError, s)
      | Some d \<Rightarrow>
          (case map_of d (snd fh) of
             Some (File c) \<Rightarrow>
               (Inr (), upd_dir (fst fh) (AList.update (snd fh) (File content)) s)
           | _ \<Rightarrow> (Inl NotFoundError, s)))"

text \<open>
  \<^verbatim>\<open>FileSystemDirectoryHandle.removeEntry(name)\<close>, not recursive: removes a file or
  an empty directory; a missing entry is a NotFoundError, a directory with entries an
  InvalidModificationError.
\<close>

definition removeEntry :: "handle \<Rightarrow> string \<Rightarrow> unit io" where
  "removeEntry h name s =
     (case get_dir s h of
        None \<Rightarrow> (Inl NotFoundError, s)
      | Some d \<Rightarrow>
          (case map_of d name of
             None \<Rightarrow> (Inl NotFoundError, s)
           | Some (File c) \<Rightarrow> (Inr (), upd_dir h (AList.delete name) s)
           | Some (Dir sub) \<Rightarrow>
               if sub = [] then (Inr (), upd_dir h (AList.delete name) s)
               else (Inl InvalidModificationError, s)))"

section \<open>The file-system adapter (fs.ts)\<close>

definition META_SUFFIX :: string where
  "META_SUFFIX = ''.meta''"

text \<open>The root handle: the empty path.\<close>

definition getRoot :: handle where
  "getRoot = []"

text \<open>
  \<^verbatim>\<open>navigate\<close>: the loop over the segments, started at \<open>d\<close>. \<open>Inr None\<close> is the
  result \<^verbatim>\<open>undefined\<close>.
\<close>

fun navigate_from :: "handle \<Rightarrow> string list \<Rightarrow> bool \<Rightarrow> handle option io" where
  "navigate_from d [] create s = (Inr (Some d), s)"
| "navigate_from d (seg # segs) create s =
     (case getDirectoryHandle d seg create s of
        (Inr d', s') \<Rightarrow> navigate_from d' segs create s'
      | (Inl err, s') \<Rightarrow>
          if \<not> create \<and> isNotFound err then (Inr None, s') else (Inl err, s'))"

definition navigate :: "string list \<Rightarrow> bool \<Rightarrow> handle option io" where
  "navigate segments create = navigate_from getRoot segments create"

definition fs_exists :: "string list \<Rightarrow> string \<Rightarrow> bool io" where
  "fs_exists dirSegments fileName s =
     (case navigate dirSegments False s of
        (Inl err, s') \<Rightarrow> (Inl err, s')
      | (Inr None, s') \<Rightarrow> (Inr False, s')
      | (Inr (Some d), s') \<Rightarrow>
          (case getFileHandle d fileName False s' of
             (Inr fh, s'') \<Rightarrow> (Inr True, s'')
           | (Inl err, s'') \<Rightarrow>
               if isNotFound err then (Inr False, s'') else (Inl err, s'')))"

text \<open>
  \<^verbatim>\<open>readEntry\<close>. The result \<open>Inr None\<close> is the miss; a hit carries the bytes of the
  data file and the parsed sidecar, \<open>None\<close> when the sidecar is absent.
\<close>

definition read_meta :: "platform \<Rightarrow> handle \<Rightarrow> string \<Rightarrow> cache_entry_meta option io" where
  "read_meta P d fileName s =
     (case getFileHandle d (fileName @ META_SUFFIX) False s of
        (Inl err, s1) \<Rightarrow> if \<not> isNotFound err then (Inl err, s1) else (Inr None, s1)
      | (Inr metaHandle, s1) \<Rightarrow>
          (case getFile metaHandle s1 of
             (Inl err, s2) \<Rightarrow> if \<not> isNotFound err then (Inl err, s2) else (Inr None, s2)
           | (Inr metaText, s2) \<Rightarrow>
               (case json_parse P metaText of
                  None \<Rightarrow> (Inl SyntaxError, s2)
                | Some m \<Rightarrow> (Inr (Some m), s2))))"

definition fs_readEntry ::
  "platform \<Rightarrow> string list \<Rightarrow> string \<Rightarrow> (string \<times> cache_entry_meta option) option io" where
  "fs_readEntry P dirSegments fileName s =
     (case navigate dirSegments False s of
        (Inl err, s') \<Rightarrow> (Inl err, s')
      | (Inr None, s') \<Rightarrow> (Inr None, s')
      | (Inr (Some d), s') \<Rightarrow>
          (case getFileHandle d fileName False s' of
             (Inl err, s1) \<Rightarrow> if isNotFound err then (Inr None, s1) else (Inl err, s1)
           | (Inr fh, s1) \<Rightarrow>
               (case getFile fh s1 of
                  (Inl err, s2) \<Rightarrow> if isNotFound err then (Inr None, s2) else (Inl err, s2)
                | (Inr bytes, s2) \<Rightarrow>
                    (case read_meta P d fileName s2 of
                       (Inl err, s3) \<Rightarrow>
                         if isNotFound err then (Inr None, s3) else (Inl err, s3)
                     | (Inr m, s3) \<Rightarrow> (Inr (Some (bytes, m)), s3)))))"

text \<open>
  \<^verbatim>\<open>write\<close>, in the two phases its comment names. Lines 90 to 101: the directory is
  reached (created where missing) and the sidecar is written and closed.
\<close>

definition write_sidecar :: "platform \<Rightarrow> handle \<Rightarrow> string \<Rightarrow> cache_entry_meta \<Rightarrow> unit io" where
  "write_sidecar P d fileName meta s =
     (case getFileHandle d (fileName @ META_SUFFIX) True s of
        (Inl err, s1) \<Rightarrow> (Inl err, s1)
      | (Inr metaHandle, s1) \<Rightarrow> writeAndClose metaHandle (json_stringify P meta) s1)"

definition write_sidecar_phase ::
  "platform \<Rightarrow> string list \<Rightarrow> string \<Rightarrow> cache_entry_meta \<Rightarrow> handle io" where
  "write_sidecar_phase P dirSegments fileName meta s =
     (case navigate dirSegments True s of
        (Inl err, s') \<Rightarrow> (Inl err, s')
      | (Inr None, s') \<Rightarrow> (Inl GenericError, s')
      | (Inr (Some d), s') \<Rightarrow>
          (case write_sidecar P d fileName meta s' of
             (Inl err, s1) \<Rightarrow> (Inl err, s1)
           | (Inr u, s1) \<Rightarrow> (Inr d, s1)))"

text \<open>
  Lines 103 to 109: the data file is opened (created where missing) and receives the
  body; a \<^verbatim>\<open>null\<close> body (\<open>None\<close>) closes the stream with nothing written.
\<close>

definition write_data :: "handle \<Rightarrow> string \<Rightarrow> string option \<Rightarrow> unit io" where
  "write_data d fileName body s =
     (case getFileHandle d fileName True s of
        (Inl err, s1) \<Rightarrow> (Inl err, s1)
      | (Inr fileHandle, s1) \<Rightarrow>
          (case body of
             None \<Rightarrow> writeAndClose fileHandle [] s1
           | Some bytes \<Rightarrow> writeAndClose fileHandle bytes s1))"

definition fs_write ::
  "platform \<Rightarrow> string list \<Rightarrow> string \<Rightarrow> string option \<Rightarrow> cache_entry_meta \<Rightarrow> unit io" where
  "fs_write P dirSegments fileName body meta s =
     (case write_sidecar_phase P dirSegments fileName meta s of
        (Inl err, s1) \<Rightarrow> (Inl err, s1)
      | (Inr d, s1) \<Rightarrow> write_data d fileName body s1)"

text \<open>
  \<^verbatim>\<open>cleanEmptyDirs\<close>. The descent collects the handles \<^verbatim>\<open>parents\<close>; any error
  ends the operation (\<open>None\<close>).
\<close>

fun descend :: "handle \<Rightarrow> string list \<Rightarrow> handle list \<Rightarrow> dirents \<Rightarrow> handle list option \<times> dirents" where
  "descend d [] parents s = (Some parents, s)"
| "descend d (seg # segs) parents s =
     (case getDirectoryHandle d seg False s of
        (Inr d', s') \<Rightarrow> descend d' segs (parents @ [d']) s'
      | (Inl err, s') \<Rightarrow> (None, s'))"

text \<open>
  The climb: \<open>climb parents segments n\<close> runs the second loop for the indices
  \<open>n - 1\<close> down to \<open>0\<close>; an error of \<^verbatim>\<open>removeEntry\<close> leaves the loop.
\<close>

fun climb :: "handle list \<Rightarrow> string list \<Rightarrow> nat \<Rightarrow> unit io" where
  "climb parents segments 0 s = (Inr (), s)"
| "climb parents segments (Suc i) s =
     (case removeEntry (parents ! i) (segments ! i) s of
        (Inr u, s') \<Rightarrow> climb parents segments i s'
      | (Inl err, s') \<Rightarrow> (Inr (), s'))"

definition cleanEmptyDirs :: "string list \<Rightarrow> unit io" where
  "cleanEmptyDirs segments s =
     (if length segments = 0 then (Inr (), s)
      else (case descend getRoot (butlast segments) [getRoot] s of
              (None, s') \<Rightarrow> (Inr (), s')
            | (Some parents, s') \<Rightarrow> climb parents segments (length parents) s'))"

text \<open>\<^verbatim>\<open>delete\<close>. Lines 124 to 134 are \<open>delete_rest\<close>.\<close>

definition delete_rest :: "handle \<Rightarrow> string list \<Rightarrow> string \<Rightarrow> bool \<Rightarrow> bool io" where
  "delete_rest d dirSegments fileName existed s =
     (case removeEntry d (fileName @ META_SUFFIX) s of
        (Inl err, s1) \<Rightarrow>
          if \<not> isNotFound err then (Inl err, s1)
          else if existed
               then (case cleanEmptyDirs dirSegments s1 of
                       (Inl e, s2) \<Rightarrow> (Inl e, s2)
                     | (Inr u, s2) \<Rightarrow> (Inr existed, s2))
               else (Inr existed, s1)
      | (Inr u, s1) \<Rightarrow>
          if existed
          then (case cleanEmptyDirs dirSegments s1 of
                  (Inl e, s2) \<Rightarrow> (Inl e, s2)
                | (Inr u, s2) \<Rightarrow> (Inr existed, s2))
          else (Inr existed, s1))"

definition fs_delete :: "string list \<Rightarrow> string \<Rightarrow> bool io" where
  "fs_delete dirSegments fileName s =
     (case navigate dirSegments False s of
        (Inl err, s') \<Rightarrow> (Inl err, s')
      | (Inr None, s') \<Rightarrow> (Inr False, s')
      | (Inr (Some d), s') \<Rightarrow>
          (case removeEntry d fileName s' of
             (Inl err, s1) \<Rightarrow>
               if \<not> isNotFound err then (Inl err, s1)
               else delete_rest d dirSegments fileName False s1
           | (Inr u, s1) \<Rightarrow> delete_rest d dirSegments fileName True s1))"

text \<open>\<^verbatim>\<open>String.prototype.endsWith\<close>.\<close>

definition endsWith :: "string \<Rightarrow> string \<Rightarrow> bool" where
  "endsWith s suf = (length suf \<le> length s \<and> drop (length s - length suf) s = suf)"

text \<open>
  \<^verbatim>\<open>walk\<close> over the entries of a directory. The source starts the walks of the
  subdirectories concurrently and awaits them together, so the order of the collected
  paths is not fixed by the code; the model reports them in iteration order, depth
  first, and the theorems below speak about the collection only as a multiset or set.
\<close>

fun walk :: "dirents \<Rightarrow> string list \<Rightarrow> string list list" where
  "walk [] prefix = []"
| "walk ((name, File c) # rest) prefix =
     (if \<not> endsWith name META_SUFFIX then [prefix @ [name]] else []) @ walk rest prefix"
| "walk ((name, Dir sub) # rest) prefix =
     walk sub (prefix @ [name]) @ walk rest prefix"

definition fs_list :: "string list list io" where
  "fs_list s = (Inr (walk s []), s)"

section \<open>The cache facade (cache.ts)\<close>

text \<open>
  A \<^verbatim>\<open>Response\<close>, as the carrier of the fields the cache reads and sets: status,
  status text, headers (the entries its \<^verbatim>\<open>Headers\<close> object iterates), the bytes of
  the body (\<open>None\<close> for a \<^verbatim>\<open>null\<close> body) and \<^verbatim>\<open>bodyUsed\<close>.
\<close>

record response = cache_entry_meta +
  body :: "string option"
  bodyUsed :: bool

text \<open>
  The \<^verbatim>\<open>Response\<close> constructor, \<^verbatim>\<open>new Response(stream, init)\<close>, with the checks it
  makes in their order: a status outside 200 to 599 is a RangeError; a status text
  that is not empty and not a reason phrase is a TypeError; a header that is not
  accepted is a TypeError; a body that is not \<^verbatim>\<open>null\<close> together with a null body
  status (101, 103, 204, 205, 304) is a TypeError.
\<close>

definition null_body_status :: "int \<Rightarrow> bool" where
  "null_body_status st = (st = 101 \<or> st = 103 \<or> st = 204 \<or> st = 205 \<or> st = 304)"

definition new_Response :: "platform \<Rightarrow> string option \<Rightarrow> cache_entry_meta \<Rightarrow> error + response" where
  "new_Response P stream init =
     (if status init < 200 \<or> 599 < status init then Inl RangeError
      else if statusText init \<noteq> [] \<and> \<not> reason_phrase P (statusText init) then Inl TypeError
      else if \<not> list_all (header_entry P) (headers init) then Inl TypeError
      else if stream \<noteq> None \<and> null_body_status (status init) then Inl TypeError
      else Inr \<lparr>headers = headers init, status = status init, statusText = statusText init,
                 body = stream, bodyUsed = False\<rparr>)"

text \<open>The bytes a reader of the body receives.\<close>

definition body_bytes :: "response \<Rightarrow> string" where
  "body_bytes r = (case body r of None \<Rightarrow> [] | Some bytes \<Rightarrow> bytes)"

text \<open>\<^verbatim>\<open>Array.prototype.join\<close>.\<close>

fun js_join :: "string \<Rightarrow> string list \<Rightarrow> string" where
  "js_join sep [] = []"
| "js_join sep [x] = x"
| "js_join sep (x # y # ys) = x @ sep @ js_join sep (y # ys)"

definition cache_match :: "platform \<Rightarrow> request \<Rightarrow> response option io" where
  "cache_match P request s =
     (case resolvePath P request of
        Inl e \<Rightarrow> (Inl e, s)
      | Inr rp \<Rightarrow>
          (case fs_readEntry P (rdir rp) (rfile rp) s of
             (Inl e, s') \<Rightarrow> (Inl e, s')
           | (Inr None, s') \<Rightarrow> (Inr None, s')
           | (Inr (Some (bytes, m)), s') \<Rightarrow>
               (case new_Response P (Some bytes)
                       \<lparr>headers = (case m of None \<Rightarrow> [] | Some meta \<Rightarrow> headers meta),
                        status = (case m of None \<Rightarrow> 200 | Some meta \<Rightarrow> status meta),
                        statusText = (case m of None \<Rightarrow> [] | Some meta \<Rightarrow> statusText meta)\<rparr> of
                  Inl e \<Rightarrow> (Inl e, s')
                | Inr r \<Rightarrow> (Inr (Some r), s'))))"

definition cache_put :: "platform \<Rightarrow> request \<Rightarrow> response \<Rightarrow> unit io" where
  "cache_put P request rsp s =
     (if bodyUsed rsp then (Inl TypeError, s)
      else (case resolvePath P request of
              Inl e \<Rightarrow> (Inl e, s)
            | Inr rp \<Rightarrow>
                fs_write P (rdir rp) (rfile rp) (body rsp)
                  \<lparr>headers = headers rsp, status = status rsp, statusText = statusText rsp\<rparr> s))"

definition cache_delete :: "platform \<Rightarrow> request \<Rightarrow> bool io" where
  "cache_delete P request s =
     (case resolvePath P request of
        Inl e \<Rightarrow> (Inl e, s)
      | Inr rp \<Rightarrow> fs_delete (rdir rp) (rfile rp) s)"

text \<open>
  \<^verbatim>\<open>keys\<close>; a returned \<^verbatim>\<open>Request\<close> is represented by the root-relative path it is
  constructed from.
\<close>

definition cache_keys :: "platform \<Rightarrow> request option \<Rightarrow> string list io" where
  "cache_keys P request s =
     (case request of
        Some r \<Rightarrow>
          (case resolvePath P r of
             Inl e \<Rightarrow> (Inl e, s)
           | Inr rp \<Rightarrow>
               (case fs_exists (rdir rp) (rfile rp) s of
                  (Inl e, s') \<Rightarrow> (Inl e, s')
                | (Inr found, s') \<Rightarrow>
                    if \<not> found then (Inr [], s')
                    else (Inr [''/'' @ js_join ''/'' (rdir rp @ [rfile rp])], s')))
      | None \<Rightarrow>
          (case fs_list s of
             (Inl e, s') \<Rightarrow> (Inl e, s')
           | (Inr entries, s') \<Rightarrow> (Inr (map (\<lambda>segs. ''/'' @ js_join ''/'' segs) entries), s')))"

section \<open>A concrete platform for running the model\<close>

text \<open>
  The theorems below hold for every platform. To run the model on concrete keys and
  responses a small stand-in is enough: it parses \<^verbatim>\<open>https://host/path?query\<close>
  (no dot segments, no fragment), knows the JSON text of four metadata values, and
  accepts a status text or header value when it holds no line break.
\<close>

definition demo_url_parse :: "string \<Rightarrow> url option" where
  "demo_url_parse s =
     (if take 8 s = ''https://''
      then (let afterHost = dropWhile (\<lambda>c. c \<noteq> CHR ''/'') (drop 8 s);
                p = takeWhile (\<lambda>c. c \<noteq> CHR ''?'') afterHost;
                q = dropWhile (\<lambda>c. c \<noteq> CHR ''?'') afterHost
            in Some \<lparr>pathname = (if p = [] then ''/'' else p),
                      search = (if q = ''?'' then [] else q)\<rparr>)
      else None)"

definition meta_ok :: cache_entry_meta where
  "meta_ok = \<lparr>headers = [(''content-type'', ''text/plain'')], status = 200, statusText = ''OK''\<rparr>"

definition meta_created :: cache_entry_meta where
  "meta_created = \<lparr>headers = [], status = 201, statusText = ''Created''\<rparr>"

definition meta_no_content :: cache_entry_meta where
  "meta_no_content = \<lparr>headers = [], status = 204, statusText = ''No Content''\<rparr>"

definition meta_error :: cache_entry_meta where
  "meta_error = \<lparr>headers = [], status = 0, statusText = []\<rparr>"

definition demo_stringify :: "cache_entry_meta \<Rightarrow> string" where
  "demo_stringify m =
     (if m = meta_ok then ''{headers:{content-type:text/plain},status:200,statusText:OK}''
      else if m = meta_created then ''{headers:{},status:201,statusText:Created}''
      else if m = meta_no_content then ''{headers:{},status:204,statusText:No Content}''
      else if m = meta_error then ''{headers:{},status:0,statusText:}''
      else ''{}'')"

definition demo_parse :: "string \<Rightarrow> cache_entry_meta option" where
  "demo_parse t =
     (if t = ''{headers:{content-type:text/plain},status:200,statusText:OK}'' then Some meta_ok
      else if t = ''{headers:{},status:201,statusText:Created}'' then Some meta_created
      else if t = ''{headers:{},status:204,statusText:No Content}'' then Some meta_no_content
      else if t = ''{headers:{},status:0,statusText:}'' then Some meta_error
      else None)"

definition demo_reason_phrase :: "string \<Rightarrow> bool" where
  "demo_reason_phrase t = list_all (\<lambda>c. c \<noteq> CHR 0x0A \<and> c \<noteq> CHR 0x0D) t"

definition demo_header_entry :: "string \<times> string \<Rightarrow> bool" where
  "demo_header_entry h = (fst h \<noteq> [] \<and> demo_reason_phrase (snd h))"

definition demo :: platform where
  "demo = \<lparr>url_parse = demo_url_parse, json_stringify = demo_stringify, json_parse = demo_parse,
            reason_phrase = demo_reason_phrase, header_entry = demo_header_entry\<rparr>"

definition rsp_ok :: response where
  "rsp_ok = \<lparr>headers = [(''content-type'', ''text/plain'')], status = 200, statusText = ''OK'',
             body = Some ''0110'', bodyUsed = False\<rparr>"

definition rsp_created :: response where
  "rsp_created = \<lparr>headers = [], status = 201, statusText = ''Created'',
                  body = None, bodyUsed = False\<rparr>"

text \<open>\<^verbatim>\<open>new Response(null, { status: 204, statusText: "No Content" })\<close>.\<close>

definition rsp_no_content :: response where
  "rsp_no_content = \<lparr>headers = [], status = 204, statusText = ''No Content'',
                     body = None, bodyUsed = False\<rparr>"

text \<open>\<^verbatim>\<open>Response.error()\<close>: status 0, no body.\<close>

definition rsp_error :: response where
  "rsp_error = \<lparr>headers = [], status = 0, statusText = [],
                body = None, bodyUsed = False\<rparr>"

section \<open>Notions used in the statements\<close>

text \<open>What a name denotes in a directory: a subdirectory, a file, or nothing.\<close>

definition is_directory :: "node option \<Rightarrow> bool" where
  "is_directory x = (case x of Some (Dir sub) \<Rightarrow> True | _ \<Rightarrow> False)"

definition is_file :: "node option \<Rightarrow> bool" where
  "is_file x = (case x of Some (File c) \<Rightarrow> True | _ \<Rightarrow> False)"


text \<open>The data file of the entry \<open>dirSegments\<close>, \<open>fileName\<close> exists in the storage.\<close>

definition data_file_exists :: "dirents \<Rightarrow> string list \<Rightarrow> string \<Rightarrow> bool" where
  "data_file_exists s dirSegments fileName =
     (case get_dir s dirSegments of
        None \<Rightarrow> False
      | Some e \<Rightarrow> is_file (map_of e fileName))"

text \<open>
  The directory content \<open>cents\<close> holds the entry \<open>fileName\<close> and nothing else: its data
  file, possibly its sidecar, and no other name.
\<close>

definition only_entry :: "dirents \<Rightarrow> string \<Rightarrow> bool" where
  "only_entry cents fileName =
     (is_file (map_of cents fileName) \<and>
      \<not> is_directory (map_of cents (fileName @ META_SUFFIX)) \<and>
      list_all (\<lambda>(n, x). n = fileName \<or> n = fileName @ META_SUFFIX) cents)"

text \<open>No entry of the name \<open>fileName\<close> exists in the directory \<open>dirSegments\<close>.\<close>

definition entry_absent :: "dirents \<Rightarrow> string list \<Rightarrow> string \<Rightarrow> bool" where
  "entry_absent s dirSegments fileName =
     (case get_dir s dirSegments of
        None \<Rightarrow> True
      | Some e \<Rightarrow> map_of e fileName = None)"

text \<open>
  A well-formed storage: no directory holds two entries of the same name. The storage
  operations above keep this property.
\<close>

fun wf_dirents :: "dirents \<Rightarrow> bool" where
  "wf_dirents [] = True"
| "wf_dirents ((name, File c) # rest) = (name \<notin> fst ` set rest \<and> wf_dirents rest)"
| "wf_dirents ((name, Dir sub) # rest) =
     (name \<notin> fst ` set rest \<and> wf_dirents sub \<and> wf_dirents rest)"

text \<open>The path \<open>p\<close>, read from the root of \<open>d\<close>, denotes a file.\<close>

fun stored_file :: "dirents \<Rightarrow> string list \<Rightarrow> bool" where
  "stored_file d [] = False"
| "stored_file d [n] = is_file (map_of d n)"
| "stored_file d (n # m # ms) =
     (case map_of d n of
        Some (Dir sub) \<Rightarrow> stored_file sub (m # ms)
      | _ \<Rightarrow> False)"

text \<open>
  A client that puts a list of keys and responses, one after the other, and stops at
  the first error.
\<close>

fun put_all :: "platform \<Rightarrow> (request \<times> response) list \<Rightarrow> unit io" where
  "put_all P [] s = (Inr (), s)"
| "put_all P ((request, rsp) # rest) s =
     (case cache_put P request rsp s of
        (Inl e, s') \<Rightarrow> (Inl e, s')
      | (Inr u, s') \<Rightarrow> put_all P rest s')"

section \<open>Properties of path resolution\<close>

lemma resolvePath_Inr_iff:
  "resolvePath P request = Inr rp \<longleftrightarrow>
     (\<exists>p q. pathname_search P request = Inr (p, q) \<and> path_segments p \<noteq> [] \<and>
        ''.'' \<notin> set (path_segments p) \<and> ''..'' \<notin> set (path_segments p) \<and>
        rp = \<lparr>rdir = butlast (path_segments p), rfile = last (path_segments p) @ q\<rparr>)"
  by (auto simp: resolvePath_def Let_def list_ex_iff split: sum.splits prod.splits)

lemma path_segments_subset:
  "set (path_segments p) \<subseteq> set (js_split (CHR ''/'') p) - {[]}"
  by (auto simp: path_segments_def)

text \<open>
  Claim C10. Whenever \<^verbatim>\<open>resolvePath\<close> returns, every segment of \<^verbatim>\<open>dir\<close> is a
  non-empty string other than "." and "..", and \<^verbatim>\<open>file\<close> is a non-empty string: a
  non-empty segment of the pathname (again neither "." nor "..") followed by the
  search string of the key.
\<close>

theorem resolvePath_result_well_formed:
  assumes "resolvePath P request = Inr rp"
  shows "(\<forall>seg \<in> set (rdir rp). seg \<noteq> [] \<and> seg \<noteq> ''.'' \<and> seg \<noteq> ''..'') \<and>
         (\<exists>p q seg. pathname_search P request = Inr (p, q) \<and>
            seg \<in> set (js_split (CHR ''/'') p) \<and>
            seg \<noteq> [] \<and> seg \<noteq> ''.'' \<and> seg \<noteq> ''..'' \<and> rfile rp = seg @ q) \<and>
         rfile rp \<noteq> []"
proof -
  from assms obtain p q where pq: "pathname_search P request = Inr (p, q)"
    and ne: "path_segments p \<noteq> []"
    and nd: "''.'' \<notin> set (path_segments p)" "''..'' \<notin> set (path_segments p)"
    and rp: "rp = \<lparr>rdir = butlast (path_segments p), rfile = last (path_segments p) @ q\<rparr>"
    unfolding resolvePath_Inr_iff by blast
  have nonempty: "\<And>seg. seg \<in> set (path_segments p) \<Longrightarrow> seg \<noteq> []"
    by (auto simp: path_segments_def)
  have dirs: "\<forall>seg \<in> set (rdir rp). seg \<noteq> [] \<and> seg \<noteq> ''.'' \<and> seg \<noteq> ''..''"
  proof
    fix seg assume "seg \<in> set (rdir rp)"
    then have "seg \<in> set (path_segments p)" using rp by (auto dest: in_set_butlastD)
    then show "seg \<noteq> [] \<and> seg \<noteq> ''.'' \<and> seg \<noteq> ''..''" using nonempty nd by metis
  qed
  have l: "last (path_segments p) \<in> set (path_segments p)" using ne by simp
  then have l2: "last (path_segments p) \<in> set (js_split (CHR ''/'') p)"
    using path_segments_subset by blast
  have l3: "last (path_segments p) \<noteq> [] \<and> last (path_segments p) \<noteq> ''.'' \<and> last (path_segments p) \<noteq> ''..''"
    using l nonempty nd by metis
  have "rfile rp = last (path_segments p) @ q" using rp by simp
  then show ?thesis using dirs pq l2 l3 by auto
qed

theorem resolvePath_result_well_formed_witness:
  "resolvePath demo (Str ''/x/models/a?rev=2'') = Inr \<lparr>rdir = [''x'', ''models''], rfile = ''a?rev=2''\<rparr> \<and>
   (\<exists>p q seg. pathname_search demo (Str ''/x/models/a?rev=2'') = Inr (p, q) \<and>
            seg \<in> set (js_split (CHR ''/'') p) \<and>
            seg \<noteq> [] \<and> seg \<noteq> ''.'' \<and> seg \<noteq> ''..'' \<and> ''a?rev=2'' = seg @ q)"
proof -
  have r: "resolvePath demo (Str ''/x/models/a?rev=2'') = Inr \<lparr>rdir = [''x'', ''models''], rfile = ''a?rev=2''\<rparr>"
    by (simp add: resolvePath_def pathname_search_def demo_def demo_url_parse_def indexOf_def path_segments_def Let_def)
  from resolvePath_result_well_formed [OF r] r show ?thesis by simp
qed

lemma resolvePath_TypeError_only:
  "resolvePath P request = Inl e \<Longrightarrow> e = TypeError"
  by (auto simp: resolvePath_def pathname_search_def Let_def split: sum.splits prod.splits request.splits option.splits if_splits)

text \<open>
  Claim C4. A key whose pathname has no non-empty segment, or has a segment "." or
  "..", makes \<^verbatim>\<open>resolvePath\<close> fail with a TypeError, and each cache operation given
  that key fails with the same error and leaves the storage as it was. This covers
  the keys "", "/", "/a/../b" and "/./a" (strings that are not absolute URLs). A key
  that is neither a string, a Request nor a URL fails with a TypeError as well.
\<close>

theorem resolvePath_rejects:
  "(\<forall>p q. pathname_search P request = Inr (p, q) \<and>
       (path_segments p = [] \<or> ''.'' \<in> set (path_segments p) \<or> ''..'' \<in> set (path_segments p))
     \<longrightarrow> resolvePath P request = Inl TypeError \<and>
         cache_match P request s = (Inl TypeError, s) \<and>
         cache_put P request rsp s = (Inl TypeError, s) \<and>
         cache_delete P request s = (Inl TypeError, s) \<and>
         cache_keys P (Some request) s = (Inl TypeError, s)) \<and>
   (\<forall>k \<in> {'''', ''/'', ''/a/../b'', ''/./a''}.
       url_parse P k = None \<longrightarrow> resolvePath P (Str k) = Inl TypeError) \<and>
   resolvePath P Other = Inl TypeError \<and>
   cache_match P Other s = (Inl TypeError, s) \<and>
   cache_put P Other rsp s = (Inl TypeError, s) \<and>
   cache_delete P Other s = (Inl TypeError, s) \<and>
   cache_keys P (Some Other) s = (Inl TypeError, s)"
proof -
  have a: "resolvePath P request = Inl TypeError"
    if "pathname_search P request = Inr (p, q)"
      and "path_segments p = [] \<or> ''.'' \<in> set (path_segments p) \<or> ''..'' \<in> set (path_segments p)"
    for p q
    using that by (auto simp: resolvePath_def Let_def list_ex_iff)
  have b: "cache_match P r s = (Inl TypeError, s) \<and>
         cache_put P r rsp s = (Inl TypeError, s) \<and>
         cache_delete P r s = (Inl TypeError, s) \<and>
         cache_keys P (Some r) s = (Inl TypeError, s)"
    if "resolvePath P r = Inl TypeError" for r
    using that by (simp add: cache_match_def cache_put_def cache_delete_def cache_keys_def)
  have c: "resolvePath P Other = Inl TypeError"
    by (simp add: resolvePath_def pathname_search_def)
  have d: "resolvePath P (Str k) = Inl TypeError"
    if "k \<in> {'''', ''/'', ''/a/../b'', ''/./a''}" and "url_parse P k = None" for k
    using that
    by (auto simp: resolvePath_def pathname_search_def indexOf_def path_segments_def Let_def)
  show ?thesis using a b c d by blast
qed

theorem resolvePath_rejects_witness:
  "resolvePath demo (Str ''https://localhost:3000/'') = Inl TypeError \<and>
   cache_match demo (Str ''https://localhost:3000/'') [] = (Inl TypeError, []) \<and>
   cache_put demo (Str ''https://localhost:3000/'') rsp_ok [] = (Inl TypeError, []) \<and>
   cache_delete demo (Str ''https://localhost:3000/'') [] = (Inl TypeError, []) \<and>
   cache_keys demo (Some (Str ''https://localhost:3000/'')) [] = (Inl TypeError, []) \<and>
   resolvePath demo (Str ''/a/../b'') = Inl TypeError"
proof -
  have p: "pathname_search demo (Str ''https://localhost:3000/'') = Inr (''/'', [])"
    by (simp add: pathname_search_def demo_def demo_url_parse_def)
  have z: "path_segments ''/'' = []"
    by (simp add: path_segments_def)
  have n: "url_parse demo ''/a/../b'' = None"
    by (simp add: demo_def demo_url_parse_def)
  from resolvePath_rejects [of demo "Str ''https://localhost:3000/''" "[]" rsp_ok] p z n
  show ?thesis by simp
qed

text \<open>
  Claim C8. When a string and the \<^verbatim>\<open>url\<close> of a Request both parse to the URL
  \<open>u\<close>, the string, the Request and \<open>u\<close> itself resolve to the same path, so
  \<^verbatim>\<open>put\<close> and \<^verbatim>\<open>match\<close> act on the same stored entry through any of the three.
\<close>

theorem key_forms_agree:
  assumes "url_parse P k = Some u" and "url_parse P r = Some u"
  shows "resolvePath P (Str k) = resolvePath P (UrlV u) \<and>
         resolvePath P (Req r) = resolvePath P (UrlV u) \<and>
         cache_put P (Str k) rsp s = cache_put P (UrlV u) rsp s \<and>
         cache_put P (Req r) rsp s = cache_put P (UrlV u) rsp s \<and>
         cache_match P (Str k) s = cache_match P (UrlV u) s \<and>
         cache_match P (Req r) s = cache_match P (UrlV u) s"
proof -
  have "pathname_search P (Str k) = pathname_search P (UrlV u)"
    and "pathname_search P (Req r) = pathname_search P (UrlV u)"
    using assms by (simp_all add: pathname_search_def)
  then have "resolvePath P (Str k) = resolvePath P (UrlV u)"
    and "resolvePath P (Req r) = resolvePath P (UrlV u)"
    by (simp_all add: resolvePath_def)
  then show ?thesis by (simp add: cache_put_def cache_match_def)
qed

theorem key_forms_agree_witness:
  "resolvePath demo (Str ''https://localhost:3000/data?v=1'') =
     Inr \<lparr>rdir = [], rfile = ''data?v=1''\<rparr> \<and>
   resolvePath demo (Req ''https://localhost:3000/data?v=1'') =
     Inr \<lparr>rdir = [], rfile = ''data?v=1''\<rparr> \<and>
   resolvePath demo (UrlV \<lparr>pathname = ''/data'', search = ''?v=1''\<rparr>) =
     Inr \<lparr>rdir = [], rfile = ''data?v=1''\<rparr>"
proof -
  have u: "url_parse demo ''https://localhost:3000/data?v=1'' = Some \<lparr>pathname = ''/data'', search = ''?v=1''\<rparr>"
    by (simp add: demo_def demo_url_parse_def)
  have r: "resolvePath demo (UrlV \<lparr>pathname = ''/data'', search = ''?v=1''\<rparr>) =
     Inr \<lparr>rdir = [], rfile = ''data?v=1''\<rparr>"
    by (simp add: resolvePath_def pathname_search_def path_segments_def Let_def)
  from key_forms_agree [OF u u, of rsp_ok "[]"] r show ?thesis by simp
qed

section \<open>Navigation, reading and writing\<close>

lemma get_dir_append:
  "get_dir s (h @ k) = (case get_dir s h of None \<Rightarrow> None | Some d \<Rightarrow> get_dir d k)"
  by (induction h arbitrary: s) (auto split: option.splits node.splits)

lemma get_dir_snoc:
  "get_dir s (h @ [n]) =
     (case get_dir s h of
        None \<Rightarrow> None
      | Some d \<Rightarrow> (case map_of d n of Some (Dir sub) \<Rightarrow> Some sub | _ \<Rightarrow> None))"
  by (simp add: get_dir_append split: option.splits node.splits)

lemma get_dir_upd_dir_same:
  "get_dir s h = Some d \<Longrightarrow> get_dir (upd_dir h f s) h = Some (f d)"
  by (induction h arbitrary: s) (auto simp: update_conv' split: option.splits node.splits)

lemma upd_dir_missing:
  "get_dir s h = None \<Longrightarrow> upd_dir h f s = s"
  by (induction h arbitrary: s) (auto simp: update_triv split: option.splits node.splits)

lemma getDirectoryHandle_Inr:
  assumes "getDirectoryHandle h n c s = (Inr h', s')"
  shows "h' = h @ [n] \<and> get_dir s h \<noteq> None \<and> get_dir s' h' \<noteq> None \<and> (\<not> c \<longrightarrow> s' = s)"
  using assms
  by (auto simp: getDirectoryHandle_def get_dir_snoc get_dir_upd_dir_same update_conv'
      split: option.splits node.splits if_splits)

lemma getDirectoryHandle_nocreate_state:
  "getDirectoryHandle h n False s = (r, s') \<Longrightarrow> s' = s"
  by (auto simp: getDirectoryHandle_def split: option.splits node.splits)

lemma navigate_from_create:
  assumes "navigate_from h0 segs True s = (Inr r, s')" and "get_dir s h0 \<noteq> None"
  shows "r = Some (h0 @ segs) \<and> get_dir s' (h0 @ segs) \<noteq> None"
  using assms
proof (induction segs arbitrary: h0 s)
  case Nil
  then show ?case by simp
next
  case (Cons seg segs)
  from Cons.prems(1) obtain h1 s1 where g: "getDirectoryHandle h0 seg True s = (Inr h1, s1)"
    and n: "navigate_from h1 segs True s1 = (Inr r, s')"
    by (auto split: prod.splits sum.splits)
  from getDirectoryHandle_Inr [OF g] have h1: "h1 = h0 @ [seg]" and e: "get_dir s1 h1 \<noteq> None"
    by auto
  from Cons.IH [OF n e] h1 show ?case by simp
qed

lemma navigate_from_nocreate_state:
  "navigate_from h0 segs False s = (r, s') \<Longrightarrow> s' = s"
proof (induction segs arbitrary: h0 s)
  case Nil
  then show ?case by simp
next
  case (Cons seg segs)
  obtain r1 s1 where g: "getDirectoryHandle h0 seg False s = (r1, s1)" by fastforce
  then have "s1 = s" by (rule getDirectoryHandle_nocreate_state)
  with Cons g show ?case by (auto split: sum.splits if_splits)
qed

lemma navigate_from_found:
  assumes "get_dir s (h0 @ segs) = Some d"
  shows "navigate_from h0 segs False s = (Inr (Some (h0 @ segs)), s)"
  using assms
proof (induction segs arbitrary: h0)
  case Nil
  then show ?case by simp
next
  case (Cons seg segs)
  from Cons.prems have "get_dir s ((h0 @ [seg]) @ segs) = Some d" by simp
  then have n: "navigate_from (h0 @ [seg]) segs False s = (Inr (Some (h0 @ seg # segs)), s)"
    using Cons.IH [of "h0 @ [seg]"] by simp
  from Cons.prems have "get_dir s (h0 @ [seg]) \<noteq> None"
    using get_dir_append [of s "h0 @ [seg]" segs] by (auto split: option.splits)
  then have "getDirectoryHandle h0 seg False s = (Inr (h0 @ [seg]), s)"
    by (auto simp: getDirectoryHandle_def get_dir_snoc split: option.splits node.splits)
  with n show ?case by simp
qed

lemma navigate_from_nocreate_Some:
  assumes "navigate_from h0 segs False s = (Inr (Some d), s')" and "get_dir s h0 \<noteq> None"
  shows "d = h0 @ segs \<and> get_dir s d \<noteq> None \<and> s' = s"
  using assms
proof (induction segs arbitrary: h0)
  case Nil
  then show ?case by simp
next
  case (Cons seg segs)
  from Cons.prems(1) obtain h1 s1 where g: "getDirectoryHandle h0 seg False s = (Inr h1, s1)"
    and n: "navigate_from h1 segs False s1 = (Inr (Some d), s')"
    by (auto split: prod.splits sum.splits if_splits)
  from getDirectoryHandle_Inr [OF g] have h1: "h1 = h0 @ [seg]" and e: "get_dir s1 h1 \<noteq> None" and s1: "s1 = s"
    by auto
  from Cons.IH [of h1] n e s1 h1 show ?case by auto
qed

lemma getFileHandle_Inr:
  assumes "getFileHandle h n c s = (Inr fh, s')"
  shows "fh = (h, n) \<and>
         (\<exists>e. get_dir s h = Some e \<and>
              get_dir s' h = Some (case map_of e n of None \<Rightarrow> AList.update n (File []) e | Some x \<Rightarrow> e))"
  using assms
  by (auto simp: getFileHandle_def get_dir_upd_dir_same split: option.splits node.splits if_splits)

lemma writeAndClose_Inr:
  assumes "writeAndClose (h, n) c s = (Inr u, s')"
  shows "\<exists>e. get_dir s h = Some e \<and> get_dir s' h = Some (AList.update n (File c) e)"
  using assms
  by (auto simp: writeAndClose_def get_dir_upd_dir_same split: option.splits node.splits)

lemma getFileHandle_nocreate:
  assumes "get_dir s h = Some e"
  shows "getFileHandle h n False s =
     (case map_of e n of
        None \<Rightarrow> (Inl NotFoundError, s)
      | Some (File b) \<Rightarrow> (Inr (h, n), s)
      | Some (Dir sub) \<Rightarrow> (Inl TypeMismatchError, s))"
  using assms by (simp add: getFileHandle_def split: option.splits node.splits)

lemma getFile_at:
  assumes "get_dir s h = Some e" and "map_of e n = Some (File b)"
  shows "getFile (h, n) s = (Inr b, s)"
  using assms by (simp add: getFile_def)

lemma navigate_found:
  "get_dir s dirSegments = Some e \<Longrightarrow> navigate dirSegments False s = (Inr (Some dirSegments), s)"
  using navigate_from_found [of s "[]" dirSegments e] by (simp add: navigate_def getRoot_def)

lemma read_meta_at:
  assumes "get_dir s d = Some e"
  shows "read_meta P d fileName s =
     (case map_of e (fileName @ META_SUFFIX) of
        None \<Rightarrow> (Inr None, s)
      | Some (Dir sub) \<Rightarrow> (Inl TypeMismatchError, s)
      | Some (File t) \<Rightarrow>
          (case json_parse P t of
             None \<Rightarrow> (Inl SyntaxError, s)
           | Some m \<Rightarrow> (Inr (Some m), s)))"
  using assms
  by (simp add: read_meta_def getFileHandle_nocreate getFile_at isNotFound_def
      split: option.splits node.splits)

lemma fs_readEntry_at:
  assumes "get_dir s dirSegments = Some e"
  shows "fs_readEntry P dirSegments fileName s =
     (case map_of e fileName of
        None \<Rightarrow> (Inr None, s)
      | Some (Dir sub) \<Rightarrow> (Inl TypeMismatchError, s)
      | Some (File b) \<Rightarrow>
          (case map_of e (fileName @ META_SUFFIX) of
             None \<Rightarrow> (Inr (Some (b, None)), s)
           | Some (Dir sub) \<Rightarrow> (Inl TypeMismatchError, s)
           | Some (File t) \<Rightarrow>
               (case json_parse P t of
                  None \<Rightarrow> (Inl SyntaxError, s)
                | Some m \<Rightarrow> (Inr (Some (b, Some m)), s))))"
  using assms
  by (simp add: fs_readEntry_def navigate_found getFileHandle_nocreate getFile_at
      read_meta_at isNotFound_def split: option.splits node.splits)

lemma meta_name_differs: "fileName @ META_SUFFIX \<noteq> fileName"
  by (simp add: META_SUFFIX_def)

lemma write_sidecar_Inr:
  assumes "write_sidecar P d fileName meta s = (Inr u, s')"
  shows "\<exists>e e'. get_dir s d = Some e \<and> get_dir s' d = Some e' \<and>
           map_of e' = (map_of e)(fileName @ META_SUFFIX \<mapsto> File (json_stringify P meta))"
proof -
  from assms obtain fh s1 where g: "getFileHandle d (fileName @ META_SUFFIX) True s = (Inr fh, s1)"
    and w: "writeAndClose fh (json_stringify P meta) s1 = (Inr u, s')"
    by (auto simp: write_sidecar_def split: prod.splits sum.splits)
  from getFileHandle_Inr [OF g] obtain e where fh: "fh = (d, fileName @ META_SUFFIX)"
    and e: "get_dir s d = Some e"
    and e1: "get_dir s1 d = Some (case map_of e (fileName @ META_SUFFIX) of
               None \<Rightarrow> AList.update (fileName @ META_SUFFIX) (File []) e | Some x \<Rightarrow> e)"
    by blast
  from writeAndClose_Inr [OF w [unfolded fh]] e1
  have "get_dir s' d = Some (AList.update (fileName @ META_SUFFIX) (File (json_stringify P meta))
          (case map_of e (fileName @ META_SUFFIX) of
               None \<Rightarrow> AList.update (fileName @ META_SUFFIX) (File []) e | Some x \<Rightarrow> e))"
    by auto
  with e show ?thesis by (auto simp: update_conv' split: option.splits)
qed

lemma write_data_Inr:
  assumes "write_data d fileName bdy s = (Inr u, s')"
  shows "\<exists>e e'. get_dir s d = Some e \<and> get_dir s' d = Some e' \<and>
           map_of e' = (map_of e)(fileName \<mapsto> File (case bdy of None \<Rightarrow> [] | Some b \<Rightarrow> b))"
proof -
  from assms obtain fh s1 where g: "getFileHandle d fileName True s = (Inr fh, s1)"
    and w: "writeAndClose fh (case bdy of None \<Rightarrow> [] | Some b \<Rightarrow> b) s1 = (Inr u, s')"
    by (auto simp: write_data_def split: prod.splits sum.splits option.splits)
  from getFileHandle_Inr [OF g] obtain e where fh: "fh = (d, fileName)"
    and e: "get_dir s d = Some e"
    and e1: "get_dir s1 d = Some (case map_of e fileName of
               None \<Rightarrow> AList.update fileName (File []) e | Some x \<Rightarrow> e)"
    by blast
  from writeAndClose_Inr [OF w [unfolded fh]] e1
  have "get_dir s' d = Some (AList.update fileName (File (case bdy of None \<Rightarrow> [] | Some b \<Rightarrow> b))
          (case map_of e fileName of
               None \<Rightarrow> AList.update fileName (File []) e | Some x \<Rightarrow> e))"
    by auto
  with e show ?thesis by (auto simp: update_conv' split: option.splits)
qed

lemma write_sidecar_phase_Inr:
  assumes "write_sidecar_phase P dirSegments fileName meta s = (Inr d, s')"
  shows "d = dirSegments \<and> (\<exists>e. get_dir s' d = Some e \<and>
           map_of e (fileName @ META_SUFFIX) = Some (File (json_stringify P meta)))"
proof -
  from assms obtain s1 u where n: "navigate dirSegments True s = (Inr (Some d), s1)"
    and w: "write_sidecar P d fileName meta s1 = (Inr u, s')"
    by (auto simp: write_sidecar_phase_def split: prod.splits sum.splits option.splits)
  from n navigate_from_create [of "[]" dirSegments s "Some d" s1]
  have "d = dirSegments" by (simp add: navigate_def getRoot_def)
  with write_sidecar_Inr [OF w] show ?thesis by auto
qed

lemma fs_write_Inr:
  assumes "fs_write P dirSegments fileName bdy meta s = (Inr u, s')"
  shows "\<exists>e. get_dir s' dirSegments = Some e \<and>
           map_of e fileName = Some (File (case bdy of None \<Rightarrow> [] | Some b \<Rightarrow> b)) \<and>
           map_of e (fileName @ META_SUFFIX) = Some (File (json_stringify P meta))"
proof -
  from assms obtain d s1 where p: "write_sidecar_phase P dirSegments fileName meta s = (Inr d, s1)"
    and w: "write_data d fileName bdy s1 = (Inr u, s')"
    by (auto simp: fs_write_def split: prod.splits sum.splits)
  from write_sidecar_phase_Inr [OF p] obtain e1 where d: "d = dirSegments"
    and e1: "get_dir s1 d = Some e1"
    and m1: "map_of e1 (fileName @ META_SUFFIX) = Some (File (json_stringify P meta))"
    by blast
  from write_data_Inr [OF w] e1 obtain e' where e': "get_dir s' d = Some e'"
    and m': "map_of e' = (map_of e1)(fileName \<mapsto> File (case bdy of None \<Rightarrow> [] | Some b \<Rightarrow> b))"
    by auto
  from m' m1 have "map_of e' (fileName @ META_SUFFIX) = Some (File (json_stringify P meta))"
    by (simp add: META_SUFFIX_def)
  with e' m' d show ?thesis by simp
qed

lemmas storage_defs =
  getDirectoryHandle_def getFileHandle_def getFile_def writeAndClose_def removeEntry_def
  META_SUFFIX_def getRoot_def isNotFound_def

lemmas adapter_defs =
  navigate_def fs_exists_def read_meta_def fs_readEntry_def write_sidecar_def
  write_sidecar_phase_def write_data_def fs_write_def cleanEmptyDirs_def delete_rest_def
  fs_delete_def endsWith_def fs_list_def

lemmas cache_defs =
  cache_match_def cache_put_def cache_delete_def cache_keys_def body_bytes_def
  new_Response_def null_body_status_def

lemmas resolve_defs =
  resolvePath_def pathname_search_def path_segments_def indexOf_def Let_def

lemmas demo_defs =
  demo_def demo_url_parse_def demo_stringify_def demo_parse_def meta_ok_def meta_created_def
  meta_no_content_def meta_error_def demo_reason_phrase_def demo_header_entry_def
  rsp_ok_def rsp_created_def rsp_no_content_def rsp_error_def





text \<open>
  Claim C7. For a stored entry whose data file exists: when the sidecar is absent,
  \<^verbatim>\<open>match\<close> succeeds with status 200, empty status text and empty headers; when the
  sidecar is a file whose text does not parse, the SyntaxError reaches the caller.
\<close>

theorem match_without_sidecar:
  assumes "resolvePath P request = Inr rp"
    and "get_dir s (rdir rp) = Some e"
    and "map_of e (rfile rp) = Some (File b)"
  shows "(map_of e (rfile rp @ META_SUFFIX) = None \<longrightarrow>
            cache_match P request s =
              (Inr (Some \<lparr>headers = [], status = 200, statusText = [],
                           body = Some b, bodyUsed = False\<rparr>), s)) \<and>
         (\<forall>t. map_of e (rfile rp @ META_SUFFIX) = Some (File t) \<and> json_parse P t = None \<longrightarrow>
            cache_match P request s = (Inl SyntaxError, s))"
  by (simp add: cache_match_def new_Response_def null_body_status_def assms(1)
      fs_readEntry_at [OF assms(2)] assms(3))

theorem match_without_sidecar_witness:
  "cache_match demo (Str ''/a/f'') [(''a'', Dir [(''f'', File ''0110'')])] =
     (Inr (Some \<lparr>headers = [], status = 200, statusText = [],
                  body = Some ''0110'', bodyUsed = False\<rparr>),
      [(''a'', Dir [(''f'', File ''0110'')])]) \<and>
   cache_match demo (Str ''/a/f'')
       [(''a'', Dir [(''f.meta'', File ''{headers:''), (''f'', File ''0110'')])] =
     (Inl SyntaxError, [(''a'', Dir [(''f.meta'', File ''{headers:''), (''f'', File ''0110'')])])"
proof -
  have r: "resolvePath demo (Str ''/a/f'') = Inr \<lparr>rdir = [''a''], rfile = ''f''\<rparr>"
    by (simp add: resolve_defs demo_defs)
  have g1: "get_dir [(''a'', Dir [(''f'', File ''0110'')])] (rdir \<lparr>rdir = [''a''], rfile = ''f''\<rparr>) =
      Some [(''f'', File ''0110'')]"
    by simp
  have m1: "map_of [(''f'', File ''0110'')] (rfile \<lparr>rdir = [''a''], rfile = ''f''\<rparr>) = Some (File ''0110'')"
    by simp
  have g2: "get_dir [(''a'', Dir [(''f.meta'', File ''{headers:''), (''f'', File ''0110'')])]
       (rdir \<lparr>rdir = [''a''], rfile = ''f''\<rparr>) =
      Some [(''f.meta'', File ''{headers:''), (''f'', File ''0110'')]"
    by simp
  have m2: "map_of [(''f.meta'', File ''{headers:''), (''f'', File ''0110'')]
       (rfile \<lparr>rdir = [''a''], rfile = ''f''\<rparr>) = Some (File ''0110'')"
    by simp
  from match_without_sidecar [OF r g1 m1] match_without_sidecar [OF r g2 m2]
  show ?thesis by (simp add: META_SUFFIX_def demo_defs)
qed

section \<open>Deleting and pruning\<close>

lemma removeEntry_at:
  assumes "get_dir s h = Some e"
  shows "removeEntry h n s =
     (case map_of e n of
        None \<Rightarrow> (Inl NotFoundError, s)
      | Some (File c) \<Rightarrow> (Inr (), upd_dir h (AList.delete n) s)
      | Some (Dir sub) \<Rightarrow>
          if sub = [] then (Inr (), upd_dir h (AList.delete n) s)
          else (Inl InvalidModificationError, s))"
  using assms by (simp add: removeEntry_def)

lemma upd_dir_upd_dir:
  "upd_dir h g (upd_dir h f s) = upd_dir h (g \<circ> f) s"
  by (induction h arbitrary: s) (auto simp: update_conv' split: option.splits node.splits)

lemma upd_dir_noop:
  "get_dir s h = Some e \<Longrightarrow> f e = e \<Longrightarrow> upd_dir h f s = s"
  by (induction h arbitrary: s) (auto simp: update_triv split: option.splits node.splits)

lemma delete_absent: "map_of e n = None \<Longrightarrow> AList.delete n e = e"
  by (simp add: map_of_eq_None_iff)



text \<open>\<^verbatim>\<open>cleanEmptyDirs\<close> catches every error of its two loops.\<close>

lemma climb_never_raises: "fst (climb parents segments n s) = Inr ()"
  by (induction n arbitrary: s) (auto split: prod.splits sum.splits)

lemma cleanEmptyDirs_never_raises: "fst (cleanEmptyDirs segments s) = Inr ()"
  by (auto simp: cleanEmptyDirs_def climb_never_raises split: prod.splits option.splits)

lemma delete_rest_at:
  assumes "get_dir s d = Some e" and "\<not> is_directory (map_of e (fileName @ META_SUFFIX))"
  shows "delete_rest d dirSegments fileName existed s =
     (Inr existed,
      if existed
      then snd (cleanEmptyDirs dirSegments (upd_dir d (AList.delete (fileName @ META_SUFFIX)) s))
      else upd_dir d (AList.delete (fileName @ META_SUFFIX)) s)"
proof -
  have n: "upd_dir d (AList.delete (fileName @ META_SUFFIX)) s = s"
    if "map_of e (fileName @ META_SUFFIX) = None"
    using that assms(1) by (simp add: upd_dir_noop delete_absent)
  have c: "\<exists>t'. cleanEmptyDirs dirSegments t = (Inr (), t')" for t
    using cleanEmptyDirs_never_raises [of dirSegments t] by (cases "cleanEmptyDirs dirSegments t") simp
  show ?thesis
  proof (cases "map_of e (fileName @ META_SUFFIX)")
    case None
    obtain t' where "cleanEmptyDirs dirSegments s = (Inr (), t')"
      using c by blast
    with None show ?thesis
      by (simp add: delete_rest_def removeEntry_at [OF assms(1)] isNotFound_def n)
  next
    case (Some x)
    with assms(2) obtain t where "x = File t"
      by (cases x) (auto simp: is_directory_def)
    moreover obtain t' where
      "cleanEmptyDirs dirSegments (upd_dir d (AList.delete (fileName @ META_SUFFIX)) s) = (Inr (), t')"
      using c by blast
    ultimately show ?thesis using Some
      by (simp add: delete_rest_def removeEntry_at [OF assms(1)])
  qed
qed

lemma fs_delete_at:
  assumes "get_dir s dirSegments = Some e"
    and "\<not> is_directory (map_of e fileName)"
    and "\<not> is_directory (map_of e (fileName @ META_SUFFIX))"
  shows "fs_delete dirSegments fileName s =
     (Inr (is_file (map_of e fileName)),
      if is_file (map_of e fileName)
      then snd (cleanEmptyDirs dirSegments
             (upd_dir dirSegments (AList.delete (fileName @ META_SUFFIX) \<circ> AList.delete fileName) s))
      else upd_dir dirSegments (AList.delete (fileName @ META_SUFFIX)) s)"
proof (cases "map_of e fileName")
  case None
  then show ?thesis
    using delete_rest_at [OF assms(1) assms(3), of dirSegments False]
    by (simp add: fs_delete_def navigate_found [OF assms(1)] removeEntry_at [OF assms(1)]
        isNotFound_def is_file_def)
next
  case (Some x)
  with assms(2) obtain t where x: "x = File t"
    by (cases x) (auto simp: is_directory_def)
  let ?s1 = "upd_dir dirSegments (AList.delete fileName) s"
  have g: "get_dir ?s1 dirSegments = Some (AList.delete fileName e)"
    using assms(1) by (rule get_dir_upd_dir_same)
  have m: "\<not> is_directory (map_of (AList.delete fileName e) (fileName @ META_SUFFIX))"
    using assms(3) by (simp add: delete_conv' META_SUFFIX_def)
  from delete_rest_at [OF g m, of dirSegments True] Some x show ?thesis
    by (simp add: fs_delete_def navigate_found [OF assms(1)] removeEntry_at [OF assms(1)]
        is_file_def upd_dir_upd_dir)
qed

lemma only_entry_deleted:
  assumes "only_entry cents fileName"
  shows "(AList.delete (fileName @ META_SUFFIX) \<circ> AList.delete fileName) cents = []"
proof -
  from assms have "list_all (\<lambda>(n, x). n = fileName \<or> n = fileName @ META_SUFFIX) cents"
    by (simp add: only_entry_def)
  then show ?thesis
    by (induction cents) (auto simp: AList.delete_eq)
qed

lemma delete_only_entry_prunes_all:
  assumes a: "map_of s a = Some (Dir [(b, Dir [(c, Dir cents)])])"
    and o: "only_entry cents fileName"
  shows "fs_delete [a, b, c] fileName s = (Inr True, AList.delete a s)"
proof -
  have g: "get_dir s [a, b, c] = Some cents"
    using a by simp
  have f: "is_file (map_of cents fileName)"
    and m: "\<not> is_directory (map_of cents (fileName @ META_SUFFIX))"
    using o by (simp_all add: only_entry_def)
  from f have d: "\<not> is_directory (map_of cents fileName)"
    by (auto simp: is_file_def is_directory_def split: option.splits node.splits)
  have u: "upd_dir [a, b, c] (AList.delete (fileName @ META_SUFFIX) \<circ> AList.delete fileName) s =
             AList.update a (Dir [(b, Dir [(c, Dir [])])]) s"
    using a only_entry_deleted [OF o] by simp
  have c: "cleanEmptyDirs [a, b, c] (AList.update a (Dir [(b, Dir [(c, Dir [])])]) s) =
             (Inr (), AList.delete a s)"
    by (simp add: cleanEmptyDirs_def getRoot_def getDirectoryHandle_def removeEntry_def
        update_conv' delete_update_same)
  from fs_delete_at [OF g d m] f u c show ?thesis by simp
qed

lemma delete_with_sibling_halts:
  assumes a: "map_of s a = Some (Dir aents)"
    and b: "map_of aents b = Some (Dir bents)"
    and c: "map_of bents c = Some (Dir cents)"
    and o: "only_entry cents fileName"
    and d: "d \<noteq> c" "map_of bents d = Some x"
  shows "fs_delete [a, b, c] fileName s = (Inr True, upd_dir [a, b] (AList.delete c) s)"
proof -
  have g: "get_dir s [a, b, c] = Some cents"
    using a b c by simp
  have f: "is_file (map_of cents fileName)"
    and m: "\<not> is_directory (map_of cents (fileName @ META_SUFFIX))"
    using o by (simp_all add: only_entry_def)
  from f have nd: "\<not> is_directory (map_of cents fileName)"
    by (auto simp: is_file_def is_directory_def split: option.splits node.splits)
  have ne: "AList.delete c bents \<noteq> []"
  proof
    assume "AList.delete c bents = []"
    then have "map_of (AList.delete c bents) d = None" by simp
    with d show False by (simp add: delete_conv')
  qed
  have u: "upd_dir [a, b, c] (AList.delete (fileName @ META_SUFFIX) \<circ> AList.delete fileName) s =
             AList.update a (Dir (AList.update b (Dir (AList.update c (Dir []) bents)) aents)) s"
    using a b c only_entry_deleted [OF o] by simp
  have r: "upd_dir [a, b] (AList.delete c) s =
             AList.update a (Dir (AList.update b (Dir (AList.delete c bents)) aents)) s"
    using a b by simp
  have cl: "cleanEmptyDirs [a, b, c]
              (AList.update a (Dir (AList.update b (Dir (AList.update c (Dir []) bents)) aents)) s) =
             (Inr (), AList.update a (Dir (AList.update b (Dir (AList.delete c bents)) aents)) s)"
    using ne
    by (simp add: cleanEmptyDirs_def getRoot_def getDirectoryHandle_def removeEntry_def
        update_conv' delete_update_same)
  from fs_delete_at [OF g nd m] f u cl r show ?thesis by simp
qed

lemma sibling_kept:
  assumes a: "map_of s a = Some (Dir aents)"
    and b: "map_of aents b = Some (Dir bents)"
    and d: "d \<noteq> c" "map_of bents d = Some x"
  shows "\<exists>bents'. get_dir (upd_dir [a, b] (AList.delete c) s) [a, b] = Some bents' \<and>
           map_of bents' d = Some x \<and> map_of bents' c = None"
proof -
  have "get_dir s [a, b] = Some bents" using a b by simp
  then have "get_dir (upd_dir [a, b] (AList.delete c) s) [a, b] = Some (AList.delete c bents)"
    by (rule get_dir_upd_dir_same)
  with d show ?thesis by (simp add: delete_conv')
qed

text \<open>
  Claim C6. \<^verbatim>\<open>cleanEmptyDirs\<close> never raises. When the entry \<open>fileName\<close> is the only
  content of \<open>a/b/c\<close>, and \<open>c\<close> the only content of \<open>b\<close>, and \<open>b\<close> the only content of
  \<open>a\<close>, deleting it removes \<open>c\<close>, then \<open>b\<close>, then \<open>a\<close>: the root no longer has the
  name \<open>a\<close>, and nothing else has changed; the three removals succeed in this order,
  each on a directory that the one before has emptied. When \<open>b\<close> has another entry \<open>d\<close>, deleting
  removes only \<open>c\<close>: the directories \<open>a\<close> and \<open>b\<close> and the sibling \<open>d\<close> stay.
\<close>

theorem prune_after_delete:
  "fst (cleanEmptyDirs segments s) = Inr () \<and>
   (map_of s a = Some (Dir [(b, Dir [(c, Dir cents)])]) \<and> only_entry cents fileName \<longrightarrow>
      fs_delete [a, b, c] fileName s = (Inr True, AList.delete a s) \<and>
      map_of (AList.delete a s) a = None \<and>
      removeEntry [a, b] c (AList.update a (Dir [(b, Dir [(c, Dir [])])]) s) =
        (Inr (), AList.update a (Dir [(b, Dir [])]) s) \<and>
      removeEntry [a] b (AList.update a (Dir [(b, Dir [])]) s) =
        (Inr (), AList.update a (Dir []) s) \<and>
      removeEntry [] a (AList.update a (Dir []) s) = (Inr (), AList.delete a s)) \<and>
   (map_of s a = Some (Dir aents) \<and> map_of aents b = Some (Dir bents) \<and>
    map_of bents c = Some (Dir cents) \<and> only_entry cents fileName \<and>
    d \<noteq> c \<and> map_of bents d = Some x \<longrightarrow>
      fs_delete [a, b, c] fileName s = (Inr True, upd_dir [a, b] (AList.delete c) s) \<and>
      (\<exists>bents'. get_dir (upd_dir [a, b] (AList.delete c) s) [a, b] = Some bents' \<and>
         map_of bents' d = Some x \<and> map_of bents' c = None))"
  using cleanEmptyDirs_never_raises [of segments s]
    delete_only_entry_prunes_all [of s a b c cents fileName]
    delete_with_sibling_halts [of s a aents b bents c cents fileName d x]
    sibling_kept [of s a aents b bents d c x]
  by (simp add: delete_conv' removeEntry_def update_conv' delete_update_same)

theorem prune_after_delete_witness:
  "fs_delete [''a'', ''b'', ''c''] ''f''
     [(''z'', File ''1''),
      (''a'', Dir [(''b'', Dir [(''c'', Dir [(''f.meta'', File ''{}''), (''f'', File ''0110'')])])])] =
     (Inr True, [(''z'', File ''1'')]) \<and>
   fs_delete [''a'', ''b'', ''c''] ''f''
     [(''a'', Dir [(''b'', Dir [(''c'', Dir [(''f.meta'', File ''{}''), (''f'', File ''0110'')]),
                               (''d'', Dir [(''g.meta'', File ''{}''), (''g'', File ''1'')])])])] =
     (Inr True,
      [(''a'', Dir [(''b'', Dir [(''d'', Dir [(''g.meta'', File ''{}''), (''g'', File ''1'')])])])]) \<and>
   fst (cleanEmptyDirs [''a'', ''b'', ''c''] []) = Inr ()"
proof -
  have o: "only_entry [(''f.meta'', File ''{}''), (''f'', File ''0110'')] ''f''"
    by (simp add: only_entry_def is_file_def is_directory_def META_SUFFIX_def)
  from prune_after_delete [of "[''a'', ''b'', ''c'']" "[]"]
  have 1: "fst (cleanEmptyDirs [''a'', ''b'', ''c''] []) = Inr ()" by simp
  from prune_after_delete [of _ "[(''z'', File ''1''),
      (''a'', Dir [(''b'', Dir [(''c'', Dir [(''f.meta'', File ''{}''), (''f'', File ''0110'')])])])]"
      "''a''" "''b''" "''c''" "[(''f.meta'', File ''{}''), (''f'', File ''0110'')]" "''f''"] o
  have 2: "fs_delete [''a'', ''b'', ''c''] ''f''
     [(''z'', File ''1''),
      (''a'', Dir [(''b'', Dir [(''c'', Dir [(''f.meta'', File ''{}''), (''f'', File ''0110'')])])])] =
     (Inr True, [(''z'', File ''1'')])"
    by (simp add: AList.delete_eq)
  from prune_after_delete [of _ "[(''a'', Dir [(''b'', Dir [(''c'', Dir [(''f.meta'', File ''{}''), (''f'', File ''0110'')]),
                               (''d'', Dir [(''g.meta'', File ''{}''), (''g'', File ''1'')])])])]"
      "''a''" "''b''" "''c''" "[(''f.meta'', File ''{}''), (''f'', File ''0110'')]" "''f''"
      "[(''b'', Dir [(''c'', Dir [(''f.meta'', File ''{}''), (''f'', File ''0110'')]),
                               (''d'', Dir [(''g.meta'', File ''{}''), (''g'', File ''1'')])])]"
      "[(''c'', Dir [(''f.meta'', File ''{}''), (''f'', File ''0110'')]),
                               (''d'', Dir [(''g.meta'', File ''{}''), (''g'', File ''1'')])]"
      "''d''" "Dir [(''g.meta'', File ''{}''), (''g'', File ''1'')]"] o
  have 3: "fs_delete [''a'', ''b'', ''c''] ''f''
     [(''a'', Dir [(''b'', Dir [(''c'', Dir [(''f.meta'', File ''{}''), (''f'', File ''0110'')]),
                               (''d'', Dir [(''g.meta'', File ''{}''), (''g'', File ''1'')])])])] =
     (Inr True,
      [(''a'', Dir [(''b'', Dir [(''d'', Dir [(''g.meta'', File ''{}''), (''g'', File ''1'')])])])])"
    by (simp add: AList.delete_eq)
  from 1 2 3 show ?thesis by simp
qed





text \<open>
  A directory path either leads to a directory, or has a first segment that is
  missing, or has a first segment that names a file: the three cases of the theorem
  below are all there are.
\<close>

lemma dir_path_cases:
  "(\<exists>e. get_dir s dirSegments = Some e) \<or>
   (\<exists>pre seg post e'. dirSegments = pre @ seg # post \<and> get_dir s pre = Some e' \<and>
      (map_of e' seg = None \<or> is_file (map_of e' seg)))"
proof (induction dirSegments arbitrary: s)
  case Nil
  then show ?case by simp
next
  case (Cons n ns)
  show ?case
  proof (cases "map_of s n")
    case None
    then have "n # ns = [] @ n # ns \<and> get_dir s [] = Some s \<and> map_of s n = None" by simp
    then show ?thesis by blast
  next
    case (Some x)
    show ?thesis
    proof (cases x)
      case (File c)
      with Some have "n # ns = [] @ n # ns \<and> get_dir s [] = Some s \<and> is_file (map_of s n)"
        by (simp add: is_file_def)
      then show ?thesis by blast
    next
      case (Dir sub)
      from Cons.IH [of sub] consider e where "get_dir sub ns = Some e"
        | pre seg post e' where "ns = pre @ seg # post" "get_dir sub pre = Some e'"
            "map_of e' seg = None \<or> is_file (map_of e' seg)"
        by blast
      then show ?thesis
      proof cases
        case 1
        with Some Dir show ?thesis by simp
      next
        case 2
        with Some Dir have "n # ns = (n # pre) @ seg # post \<and> get_dir s (n # pre) = Some e' \<and>
            (map_of e' seg = None \<or> is_file (map_of e' seg))"
          by simp
        then show ?thesis by blast
      qed
    qed
  qed
qed




section \<open>Interrupted writes\<close>

lemma get_dir_Nil_step: "get_dir [] (n # ns) = None"
  by simp

lemma navigate_from_create_content:
  assumes "navigate_from h0 segs True s = (Inr r, s')" and "get_dir s h0 = Some e0"
  shows "get_dir s' (h0 @ segs) =
           Some (case get_dir s (h0 @ segs) of None \<Rightarrow> [] | Some e \<Rightarrow> e)"
  using assms
proof (induction segs arbitrary: h0 s e0)
  case Nil
  then show ?case by simp
next
  case (Cons seg segs)
  from Cons.prems(1) obtain h1 s1 where g: "getDirectoryHandle h0 seg True s = (Inr h1, s1)"
    and n: "navigate_from h1 segs True s1 = (Inr r, s')"
    by (auto split: prod.splits sum.splits)
  from getDirectoryHandle_Inr [OF g] have h1: "h1 = h0 @ [seg]"
    by simp
  show ?case
  proof (cases "map_of e0 seg")
    case None
    with g Cons.prems(2) have s1: "s1 = upd_dir h0 (AList.update seg (Dir [])) s"
      by (simp add: getDirectoryHandle_def)
    have e1: "get_dir s1 h1 = Some []"
      using Cons.prems(2) by (simp add: s1 h1 get_dir_snoc get_dir_upd_dir_same update_conv')
    have old: "get_dir s (h0 @ seg # segs) = None"
      using Cons.prems(2) None by (simp add: get_dir_append)
    have new: "get_dir s1 (h1 @ segs) = (if segs = [] then Some [] else None)"
      using e1 by (cases segs) (simp_all add: get_dir_append)
    from Cons.IH [OF n e1] old new h1 show ?thesis
      by (simp split: if_splits)
  next
    case (Some x)
    with g Cons.prems(2) obtain sub where x: "x = Dir sub" and s1: "s1 = s"
      by (cases x) (auto simp: getDirectoryHandle_def)
    have e1: "get_dir s1 h1 = Some sub"
      using Cons.prems(2) Some x by (simp add: s1 h1 get_dir_snoc)
    from Cons.IH [OF n e1] s1 h1 show ?thesis by simp
  qed
qed

lemma write_sidecar_phase_keeps_absent:
  assumes w: "write_sidecar_phase P dirSegments fileName meta s = (Inr d, s1)"
    and a: "entry_absent s dirSegments fileName"
  shows "\<exists>e. get_dir s1 dirSegments = Some e \<and> map_of e fileName = None \<and>
           map_of e (fileName @ META_SUFFIX) = Some (File (json_stringify P meta))"
proof -
  from w obtain s0 u where n: "navigate dirSegments True s = (Inr (Some d), s0)"
    and ws: "write_sidecar P d fileName meta s0 = (Inr u, s1)"
    by (auto simp: write_sidecar_phase_def split: prod.splits sum.splits option.splits)
  from n navigate_from_create [of "[]" dirSegments s "Some d" s0]
  have d: "d = dirSegments" by (simp add: navigate_def getRoot_def)
  from n navigate_from_create_content [of "[]" dirSegments s "Some d" s0 s]
  have c: "get_dir s0 dirSegments =
             Some (case get_dir s dirSegments of None \<Rightarrow> [] | Some e \<Rightarrow> e)"
    by (simp add: navigate_def getRoot_def)
  from write_sidecar_Inr [OF ws] c d obtain e' where
    e': "get_dir s1 dirSegments = Some e'"
    and m: "map_of e' = (map_of (case get_dir s dirSegments of None \<Rightarrow> [] | Some e \<Rightarrow> e))
              (fileName @ META_SUFFIX \<mapsto> File (json_stringify P meta))"
    by auto
  from a have "map_of (case get_dir s dirSegments of None \<Rightarrow> [] | Some e \<Rightarrow> e) fileName = None"
    by (simp add: entry_absent_def split: option.splits)
  with m have "map_of e' fileName = None"
    by (simp add: META_SUFFIX_def)
  with e' m show ?thesis by simp
qed

lemma fs_exists_at:
  assumes "get_dir s dirSegments = Some e"
  shows "fs_exists dirSegments fileName s =
     (case map_of e fileName of
        None \<Rightarrow> (Inr False, s)
      | Some (File b) \<Rightarrow> (Inr True, s)
      | Some (Dir sub) \<Rightarrow> (Inl TypeMismatchError, s))"
  using assms
  by (simp add: fs_exists_def navigate_found getFileHandle_nocreate isNotFound_def
      split: option.splits node.splits)

text \<open>
  What the order of the two phases of \<^verbatim>\<open>write\<close> achieves: for an entry that did not
  exist, the storage left when the sidecar has been committed and the data file not yet
  created holds the sidecar and reads as a miss.
\<close>

lemma interrupted_first_write_is_a_miss:
  assumes "write_sidecar_phase P (rdir rp) (rfile rp) meta s = (Inr d, s1)"
    and "entry_absent s (rdir rp) (rfile rp)"
    and "resolvePath P request = Inr rp"
  shows "fs_readEntry P (rdir rp) (rfile rp) s1 = (Inr None, s1) \<and>
         fs_exists (rdir rp) (rfile rp) s1 = (Inr False, s1) \<and>
         cache_match P request s1 = (Inr None, s1)"
proof -
  from write_sidecar_phase_keeps_absent [OF assms(1) assms(2)]
  obtain e where e: "get_dir s1 (rdir rp) = Some e" and m: "map_of e (rfile rp) = None"
    by blast
  show ?thesis
    by (simp add: fs_readEntry_at [OF e] fs_exists_at [OF e] m cache_match_def assms(3))
qed

text \<open>
  Claim C3 at an entry that exists already. \<^verbatim>\<open>put("/k", R1)\<close> has completed, and a
  second \<^verbatim>\<open>write\<close> for the same entry is interrupted when its sidecar is committed
  and its data file not yet opened. The storage then holds the new sidecar beside the
  old data file: \<^verbatim>\<open>exists\<close> and \<^verbatim>\<open>match\<close> report a hit, with the old body under
  the new metadata.
\<close>

theorem interrupted_overwrite_is_a_hit:
  "cache_put demo (Str ''/k'') rsp_ok [] =
     (Inr (), [(''k.meta'', File ''{headers:{content-type:text/plain},status:200,statusText:OK}''),
               (''k'', File ''0110'')]) \<and>
   write_sidecar_phase demo [] ''k'' meta_created
       [(''k.meta'', File ''{headers:{content-type:text/plain},status:200,statusText:OK}''),
        (''k'', File ''0110'')] =
     (Inr [], [(''k.meta'', File ''{headers:{},status:201,statusText:Created}''),
               (''k'', File ''0110'')]) \<and>
   fs_write demo [] ''k'' None meta_created
       [(''k.meta'', File ''{headers:{content-type:text/plain},status:200,statusText:OK}''),
        (''k'', File ''0110'')] =
     write_data [] ''k'' None
       [(''k.meta'', File ''{headers:{},status:201,statusText:Created}''),
        (''k'', File ''0110'')] \<and>
   fs_exists [] ''k''
       [(''k.meta'', File ''{headers:{},status:201,statusText:Created}''),
        (''k'', File ''0110'')] =
     (Inr True, [(''k.meta'', File ''{headers:{},status:201,statusText:Created}''),
                 (''k'', File ''0110'')]) \<and>
   cache_match demo (Str ''/k'')
       [(''k.meta'', File ''{headers:{},status:201,statusText:Created}''),
        (''k'', File ''0110'')] =
     (Inr (Some \<lparr>headers = [], status = 201, statusText = ''Created'',
                  body = Some ''0110'', bodyUsed = False\<rparr>),
      [(''k.meta'', File ''{headers:{},status:201,statusText:Created}''),
       (''k'', File ''0110'')])"
  by (simp add: cache_defs adapter_defs storage_defs resolve_defs demo_defs)

section \<open>Listing on a well-formed storage\<close>

lemma stored_file_Cons:
  "ns \<noteq> [] \<Longrightarrow>
   stored_file d (n # ns) =
     (case map_of d n of Some (Dir sub) \<Rightarrow> stored_file sub ns | _ \<Rightarrow> False)"
  by (cases ns) (simp_all split: option.splits node.splits)

lemma stored_file_Nil: "\<not> stored_file [] p"
proof (cases p)
  case Nil
  then show ?thesis by simp
next
  case (Cons n ns)
  then show ?thesis by (cases ns) (simp_all add: is_file_def)
qed

lemma stored_file_hd: "stored_file d p \<Longrightarrow> hd p \<in> fst ` set d"
proof (cases p)
  case Nil
  assume "stored_file d p" with Nil show ?thesis by simp
next
  case (Cons n ns)
  assume s: "stored_file d p"
  have "map_of d n \<noteq> None"
    using s Cons by (cases ns) (auto simp: is_file_def split: option.splits)
  then show ?thesis using Cons by (auto simp: map_of_eq_None_iff)
qed

lemma stored_file_snoc:
  "stored_file s (ds @ [f]) = data_file_exists s ds f"
proof (induction ds arbitrary: s)
  case Nil
  show ?case by (simp add: data_file_exists_def)
next
  case (Cons n ns)
  have "stored_file s (n # (ns @ [f])) =
          (case map_of s n of Some (Dir sub) \<Rightarrow> stored_file sub (ns @ [f]) | _ \<Rightarrow> False)"
    by (rule stored_file_Cons) simp
  then show ?case
    using Cons.IH
    by (simp add: data_file_exists_def split: option.splits node.splits)
qed

text \<open>The paths \<^verbatim>\<open>walk\<close> collects all start with the prefix it was given.\<close>

lemma walk_prefix:
  "q \<in> set (walk d prefix) \<Longrightarrow> \<exists>p. q = prefix @ p \<and> p \<noteq> [] \<and> hd p \<in> fst ` set d"
proof (induction d prefix arbitrary: q rule: walk.induct)
  case (1 prefix)
  then show ?case by simp
next
  case (2 name c rest prefix)
  then show ?case by (fastforce split: if_splits)
next
  case (3 name sub rest prefix)
  from "3.prems" consider "q \<in> set (walk sub (prefix @ [name]))" | "q \<in> set (walk rest prefix)"
    by auto
  then show ?case
  proof cases
    case 1
    from "3.IH"(1) [OF 1] obtain p where "q = (prefix @ [name]) @ p" by blast
    then have "q = prefix @ (name # p)" by simp
    then show ?thesis by fastforce
  next
    case 2
    from "3.IH"(2) [OF 2] show ?thesis by fastforce
  qed
qed

text \<open>
  On a well-formed storage \<^verbatim>\<open>walk\<close> collects exactly the files whose name does not
  end in ".meta", each once.
\<close>

lemma walk_count:
  "wf_dirents d \<Longrightarrow>
   count (mset (walk d prefix)) (prefix @ p) =
     (if stored_file d p \<and> \<not> endsWith (last p) META_SUFFIX then 1 else 0)"
proof (induction d prefix arbitrary: p rule: walk.induct)
  case (1 prefix)
  then show ?case by (simp add: stored_file_Nil)
next
  case (2 name c rest prefix)
  then have nm: "name \<notin> fst ` set rest" and wf: "wf_dirents rest" by simp_all
  have rest_name: "\<not> stored_file rest (name # ps)" for ps
    using stored_file_hd [of rest "name # ps"] nm by auto
  have m: "map_of rest name = None"
    using nm by (simp add: map_of_eq_None_iff)
  show ?case
  proof (cases p)
    case Nil
    with "2.IH" [OF wf, of "[]"] show ?thesis by simp
  next
    case (Cons n ns)
    show ?thesis
    proof (cases "n = name")
      case True
      have r: "count (mset (walk rest prefix)) (prefix @ name # ns) = 0"
        using "2.IH" [OF wf, of "name # ns"] rest_name by simp
      show ?thesis
      proof (cases ns)
        case Nil
        with r True Cons show ?thesis by (simp add: is_file_def)
      next
        case (Cons m ms)
        with r True \<open>p = n # ns\<close> show ?thesis by simp
      qed
    next
      case False
      have s: "stored_file ((name, File c) # rest) (n # ns) = stored_file rest (n # ns)"
        using False by (cases ns) simp_all
      from "2.IH" [OF wf, of p] s False Cons show ?thesis by simp
    qed
  qed
next
  case (3 name sub rest prefix)
  then have nm: "name \<notin> fst ` set rest" and wfs: "wf_dirents sub" and wf: "wf_dirents rest"
    by simp_all
  have rest_name: "\<not> stored_file rest (name # ps)" for ps
    using stored_file_hd [of rest "name # ps"] nm by auto
  show ?case
  proof (cases p)
    case Nil
    have "prefix \<notin> set (walk sub (prefix @ [name]))"
      using walk_prefix [of prefix sub "prefix @ [name]"] by auto
    then have "count (mset (walk sub (prefix @ [name]))) prefix = 0"
      by (simp add: count_eq_zero_iff)
    with "3.IH"(2) [OF wf, of "[]"] Nil show ?thesis by simp
  next
    case (Cons n ns)
    show ?thesis
    proof (cases "n = name")
      case True
      have r: "count (mset (walk rest prefix)) (prefix @ name # ns) = 0"
        using "3.IH"(2) [OF wf, of "name # ns"] rest_name by simp
      have sb: "count (mset (walk sub (prefix @ [name]))) ((prefix @ [name]) @ ns) =
                  (if stored_file sub ns \<and> \<not> endsWith (last ns) META_SUFFIX then 1 else 0)"
        by (rule "3.IH"(1) [OF wfs])
      show ?thesis
      proof (cases ns)
        case Nil
        with sb r True Cons show ?thesis by (simp add: is_file_def)
      next
        case (Cons m ms)
        with sb r True \<open>p = n # ns\<close> show ?thesis by simp
      qed
    next
      case False
      have s: "stored_file ((name, Dir sub) # rest) (n # ns) = stored_file rest (n # ns)"
        using False by (cases ns) simp_all
      have "prefix @ n # ns \<notin> set (walk sub (prefix @ [name]))"
      proof
        assume "prefix @ n # ns \<in> set (walk sub (prefix @ [name]))"
        from walk_prefix [OF this] obtain q where "prefix @ n # ns = (prefix @ [name]) @ q"
          by blast
        with False show False by simp
      qed
      then have "count (mset (walk sub (prefix @ [name]))) (prefix @ n # ns) = 0"
        by (simp add: count_eq_zero_iff)
      with "3.IH"(2) [OF wf, of p] s False Cons show ?thesis by simp
    qed
  qed
qed

lemma wf_map_of_Dir:
  "wf_dirents d \<Longrightarrow> map_of d n = Some (Dir sub) \<Longrightarrow> wf_dirents sub"
  by (induction d rule: wf_dirents.induct) (auto split: if_splits)

lemma wf_update_File:
  "wf_dirents d \<Longrightarrow> wf_dirents (AList.update n (File c) d)"
  by (induction d rule: wf_dirents.induct) (auto simp: dom_update)

lemma wf_update_Dir:
  "wf_dirents d \<Longrightarrow> wf_dirents sub \<Longrightarrow> wf_dirents (AList.update n (Dir sub) d)"
  by (induction d rule: wf_dirents.induct) (auto simp: dom_update)

lemma wf_delete:
  "wf_dirents d \<Longrightarrow> wf_dirents (AList.delete n d)"
  by (induction d rule: wf_dirents.induct) (auto simp: AList.delete_eq)

lemma wf_upd_dir:
  assumes "wf_dirents s" and "\<And>e. wf_dirents e \<Longrightarrow> wf_dirents (f e)"
  shows "wf_dirents (upd_dir h f s)"
  using assms(1)
proof (induction h arbitrary: s)
  case Nil
  then show ?case by (simp add: assms(2))
next
  case (Cons n ns)
  show ?case
  proof (cases "map_of s n")
    case None
    with Cons.prems show ?thesis by simp
  next
    case (Some x)
    show ?thesis
    proof (cases x)
      case (File c)
      with Some Cons.prems show ?thesis by simp
    next
      case (Dir sub)
      with Some Cons.prems have "wf_dirents sub" by (auto dest: wf_map_of_Dir)
      then have "wf_dirents (upd_dir ns f sub)" by (rule Cons.IH)
      with Some Dir Cons.prems show ?thesis by (simp add: wf_update_Dir)
    qed
  qed
qed

lemma wf_getDirectoryHandle:
  "wf_dirents s \<Longrightarrow> getDirectoryHandle h n c s = (r, s') \<Longrightarrow> wf_dirents s'"
  by (auto simp: getDirectoryHandle_def wf_upd_dir wf_update_Dir
      split: option.splits node.splits if_splits)

lemma wf_getFileHandle:
  "wf_dirents s \<Longrightarrow> getFileHandle h n c s = (r, s') \<Longrightarrow> wf_dirents s'"
  by (auto simp: getFileHandle_def wf_upd_dir wf_update_File
      split: option.splits node.splits if_splits)

lemma wf_writeAndClose:
  "wf_dirents s \<Longrightarrow> writeAndClose fh c s = (r, s') \<Longrightarrow> wf_dirents s'"
  by (auto simp: writeAndClose_def wf_upd_dir wf_update_File
      split: option.splits node.splits if_splits)

lemma wf_removeEntry:
  "wf_dirents s \<Longrightarrow> removeEntry h n s = (r, s') \<Longrightarrow> wf_dirents s'"
  by (auto simp: removeEntry_def wf_upd_dir wf_delete
      split: option.splits node.splits if_splits)

lemma wf_navigate_from:
  "wf_dirents s \<Longrightarrow> navigate_from h segs c s = (r, s') \<Longrightarrow> wf_dirents s'"
proof (induction segs arbitrary: h s)
  case Nil
  then show ?case by simp
next
  case (Cons seg segs)
  obtain r1 s1 where g: "getDirectoryHandle h seg c s = (r1, s1)" by fastforce
  with Cons.prems(1) have "wf_dirents s1" by (rule wf_getDirectoryHandle)
  with Cons.IH Cons.prems(2) g show ?case
    by (auto split: sum.splits if_splits)
qed

lemma wf_fs_write:
  assumes "wf_dirents s" and "fs_write P dirSegments fileName bdy meta s = (r, s')"
  shows "wf_dirents s'"
proof -
  have sidecar: "wf_dirents t'" if "wf_dirents t" and "write_sidecar P d fileName meta t = (x, t')"
    for t t' d x
    using that
    by (auto simp: write_sidecar_def split: prod.splits sum.splits
        dest: wf_getFileHandle wf_writeAndClose)
  have data: "wf_dirents t'" if "wf_dirents t" and "write_data d fileName bdy t = (x, t')"
    for t t' d x
    using that
    by (auto simp: write_data_def split: prod.splits sum.splits option.splits
        dest: wf_getFileHandle wf_writeAndClose)
  have phase: "wf_dirents t'"
    if "wf_dirents t" and "write_sidecar_phase P dirSegments fileName meta t = (x, t')"
    for t t' x
    using that
    by (auto simp: write_sidecar_phase_def navigate_def split: prod.splits sum.splits option.splits
        dest: wf_navigate_from sidecar)
  from assms show ?thesis
    by (auto simp: fs_write_def split: prod.splits sum.splits dest: phase data)
qed

text \<open>No path that \<^verbatim>\<open>walk\<close> collects ends in ".meta": sidecars are never listed.\<close>

lemma walk_no_sidecar:
  "q \<in> set (walk d prefix) \<Longrightarrow> \<not> endsWith (last q) META_SUFFIX"
  by (induction d prefix arbitrary: q rule: walk.induct) (auto split: if_splits)

lemma sidecar_name_endsWith: "endsWith (fileName @ META_SUFFIX) META_SUFFIX"
  by (simp add: endsWith_def)

text \<open>
  After a successful \<^verbatim>\<open>put\<close> on a well-formed storage, \<^verbatim>\<open>list\<close> holds the path of
  the entry exactly once when its file name does not end in ".meta", and does not hold
  it when it does; the sidecar is not listed.
\<close>

lemma put_then_list:
  assumes wf: "wf_dirents s"
    and put: "cache_put P request rsp s = (Inr u, s')"
    and rp: "resolvePath P request = Inr rp"
  shows "wf_dirents s'"
    and "count (mset (walk s' [])) (rdir rp @ [rfile rp]) =
           (if endsWith (rfile rp) META_SUFFIX then 0 else 1)"
    and "rdir rp @ [rfile rp @ META_SUFFIX] \<notin> set (walk s' [])"
proof -
  from put rp have w: "fs_write P (rdir rp) (rfile rp) (body rsp)
              \<lparr>headers = headers rsp, status = status rsp, statusText = statusText rsp\<rparr> s = (Inr u, s')"
    by (auto simp: cache_put_def split: if_splits)
  from wf w show wf': "wf_dirents s'" by (rule wf_fs_write)
  from fs_write_Inr [OF w] have "data_file_exists s' (rdir rp) (rfile rp)"
    by (auto simp: data_file_exists_def is_file_def)
  then have "stored_file s' (rdir rp @ [rfile rp])"
    by (simp add: stored_file_snoc)
  with walk_count [OF wf', of "[]" "rdir rp @ [rfile rp]"]
  show "count (mset (walk s' [])) (rdir rp @ [rfile rp]) =
           (if endsWith (rfile rp) META_SUFFIX then 0 else 1)"
    by simp
  show "rdir rp @ [rfile rp @ META_SUFFIX] \<notin> set (walk s' [])"
    using walk_no_sidecar [of "rdir rp @ [rfile rp @ META_SUFFIX]" s' "[]"] sidecar_name_endsWith
    by auto
qed

section \<open>When put succeeds\<close>

lemma navigate_from_existing:
  assumes "get_dir s (h0 @ segs) = Some d"
  shows "navigate_from h0 segs c s = (Inr (Some (h0 @ segs)), s)"
  using assms
proof (induction segs arbitrary: h0)
  case Nil
  then show ?case by simp
next
  case (Cons seg segs)
  from Cons.prems have "get_dir s ((h0 @ [seg]) @ segs) = Some d" by simp
  then have n: "navigate_from (h0 @ [seg]) segs c s = (Inr (Some (h0 @ seg # segs)), s)"
    using Cons.IH [of "h0 @ [seg]"] by simp
  from Cons.prems have "get_dir s (h0 @ [seg]) \<noteq> None"
    using get_dir_append [of s "h0 @ [seg]" segs] by (auto split: option.splits)
  then have "getDirectoryHandle h0 seg c s = (Inr (h0 @ [seg]), s)"
    by (auto simp: getDirectoryHandle_def get_dir_snoc split: option.splits node.splits)
  with n show ?case by simp
qed

lemma navigate_from_create_empty:
  assumes "get_dir s h0 = Some []"
  shows "\<exists>s'. navigate_from h0 segs True s = (Inr (Some (h0 @ segs)), s') \<and>
              get_dir s' (h0 @ segs) = Some []"
  using assms
proof (induction segs arbitrary: h0 s)
  case Nil
  then show ?case by simp
next
  case (Cons seg segs)
  let ?s1 = "upd_dir h0 (AList.update seg (Dir [])) s"
  have g: "getDirectoryHandle h0 seg True s = (Inr (h0 @ [seg]), ?s1)"
    using Cons.prems by (simp add: getDirectoryHandle_def)
  have "get_dir ?s1 (h0 @ [seg]) = Some []"
    using Cons.prems by (simp add: get_dir_snoc get_dir_upd_dir_same)
  from Cons.IH [OF this] g show ?case by simp
qed

lemma write_files_succeeds:
  assumes "get_dir s d = Some e"
    and "\<not> is_directory (map_of e fileName)"
    and "\<not> is_directory (map_of e (fileName @ META_SUFFIX))"
  shows "\<exists>s1 s'. write_sidecar P d fileName meta s = (Inr (), s1) \<and>
           write_data d fileName bdy s1 = (Inr (), s')"
proof -
  obtain fh s0 where g: "getFileHandle d (fileName @ META_SUFFIX) True s = (Inr fh, s0)"
    using assms(1,3)
    by (auto simp: getFileHandle_def is_directory_def split: option.splits node.splits)
  from getFileHandle_Inr [OF g] assms(1) have fh: "fh = (d, fileName @ META_SUFFIX)"
    and e0: "get_dir s0 d = Some (case map_of e (fileName @ META_SUFFIX) of
               None \<Rightarrow> AList.update (fileName @ META_SUFFIX) (File []) e | Some x \<Rightarrow> e)"
    by auto
  let ?e0 = "case map_of e (fileName @ META_SUFFIX) of
               None \<Rightarrow> AList.update (fileName @ META_SUFFIX) (File []) e | Some x \<Rightarrow> e"
  have m0: "is_file (map_of ?e0 (fileName @ META_SUFFIX))"
    using assms(3)
    by (auto simp: is_file_def is_directory_def update_conv' split: option.splits node.splits)
  let ?s1 = "upd_dir d (AList.update (fileName @ META_SUFFIX) (File (json_stringify P meta))) s0"
  have w: "writeAndClose fh (json_stringify P meta) s0 = (Inr (), ?s1)"
    using e0 m0 by (auto simp: writeAndClose_def fh is_file_def split: option.splits node.splits)
  have ws: "write_sidecar P d fileName meta s = (Inr (), ?s1)"
    using g w by (simp add: write_sidecar_def)
  let ?e1 = "AList.update (fileName @ META_SUFFIX) (File (json_stringify P meta)) ?e0"
  have e1: "get_dir ?s1 d = Some ?e1"
    using e0 by (rule get_dir_upd_dir_same)
  have m1: "\<not> is_directory (map_of ?e1 fileName)"
    using assms(2)
    by (auto simp: is_directory_def update_conv' META_SUFFIX_def split: option.splits node.splits)
  obtain fh2 s2 where g2: "getFileHandle d fileName True ?s1 = (Inr fh2, s2)"
    using e1 m1
    by (auto simp: getFileHandle_def is_directory_def split: option.splits node.splits)
  from getFileHandle_Inr [OF g2] e1 have fh2: "fh2 = (d, fileName)"
    and e2: "get_dir s2 d = Some (case map_of ?e1 fileName of
               None \<Rightarrow> AList.update fileName (File []) ?e1 | Some x \<Rightarrow> ?e1)"
    by auto
  have m2: "is_file (map_of (case map_of ?e1 fileName of
               None \<Rightarrow> AList.update fileName (File []) ?e1 | Some x \<Rightarrow> ?e1) fileName)"
    using m1
    by (auto simp: is_file_def is_directory_def update_conv' split: option.splits node.splits)
  have "\<exists>s'. writeAndClose fh2 c s2 = (Inr (), s')" for c
    using e2 m2 by (auto simp: writeAndClose_def fh2 is_file_def split: option.splits node.splits)
  then have "\<exists>s'. write_data d fileName bdy ?s1 = (Inr (), s')"
    using g2 by (auto simp: write_data_def split: option.splits)
  with ws show ?thesis by blast
qed

text \<open>
  \<^verbatim>\<open>put\<close> succeeds on the empty cache for every key that resolves and every
  response whose body has not been used.
\<close>

lemma put_on_empty_cache_succeeds:
  assumes "resolvePath P request = Inr rp" and "\<not> bodyUsed rsp"
  shows "\<exists>s'. cache_put P request rsp [] = (Inr (), s')"
proof -
  from navigate_from_create_empty [of "[]" "[]" "rdir rp"]
  obtain s0 where n: "navigate (rdir rp) True [] = (Inr (Some (rdir rp)), s0)"
    and e: "get_dir s0 (rdir rp) = Some []"
    by (auto simp: navigate_def getRoot_def)
  have "\<exists>s1 s'. write_sidecar P (rdir rp) (rfile rp)
              \<lparr>headers = headers rsp, status = status rsp, statusText = statusText rsp\<rparr> s0 =
                (Inr (), s1) \<and>
           write_data (rdir rp) (rfile rp) (body rsp) s1 = (Inr (), s')"
    by (rule write_files_succeeds [OF e]) (simp_all add: is_directory_def)
  then obtain s1 s' where "write_sidecar P (rdir rp) (rfile rp)
              \<lparr>headers = headers rsp, status = status rsp, statusText = statusText rsp\<rparr> s0 =
                (Inr (), s1)"
    and "write_data (rdir rp) (rfile rp) (body rsp) s1 = (Inr (), s')"
    by blast
  with n assms have "cache_put P request rsp [] = (Inr (), s')"
    by (simp add: cache_put_def fs_write_def write_sidecar_phase_def)
  then show ?thesis by blast
qed

text \<open>
  A second \<^verbatim>\<open>put\<close> for a key that has been put succeeds and overwrites in place:
  \<^verbatim>\<open>match\<close> then returns what the second response carried (a response the
  constructor accepts with a body), and \<^verbatim>\<open>list\<close> holds
  the entry once (or, for a file name that ends in ".meta", not at all).
\<close>

lemma second_put_overwrites:
  assumes wf: "wf_dirents s"
    and p1: "cache_put P request r1 s = (Inr u, s1)"
    and nb: "\<not> bodyUsed r2"
    and js: "json_parse P (json_stringify P
               \<lparr>headers = headers r2, status = status r2, statusText = statusText r2\<rparr>) =
             Some \<lparr>headers = headers r2, status = status r2, statusText = statusText r2\<rparr>"
    and ok: "200 \<le> status r2" "status r2 \<le> 599" "\<not> null_body_status (status r2)"
      "statusText r2 = [] \<or> reason_phrase P (statusText r2)"
      "list_all (header_entry P) (headers r2)"
  shows "\<exists>s2 rp. cache_put P request r2 s1 = (Inr (), s2) \<and>
           resolvePath P request = Inr rp \<and>
           fst (cache_match P request s2) =
             Inr (Some \<lparr>headers = headers r2, status = status r2, statusText = statusText r2,
                         body = Some (body_bytes r2), bodyUsed = False\<rparr>) \<and>
           count (mset (walk s2 [])) (rdir rp @ [rfile rp]) =
             (if endsWith (rfile rp) META_SUFFIX then 0 else 1)"
proof -
  from p1 obtain rp where rp: "resolvePath P request = Inr rp"
    and w1: "fs_write P (rdir rp) (rfile rp) (body r1)
              \<lparr>headers = headers r1, status = status r1, statusText = statusText r1\<rparr> s = (Inr u, s1)"
    by (auto simp: cache_put_def split: if_splits sum.splits)
  from wf w1 have wf1: "wf_dirents s1" by (rule wf_fs_write)
  from fs_write_Inr [OF w1] obtain e where e: "get_dir s1 (rdir rp) = Some e"
    and f: "is_file (map_of e (rfile rp))" and m: "is_file (map_of e (rfile rp @ META_SUFFIX))"
    by (auto simp: is_file_def)
  from f m have nd: "\<not> is_directory (map_of e (rfile rp))"
    "\<not> is_directory (map_of e (rfile rp @ META_SUFFIX))"
    by (auto simp: is_file_def is_directory_def split: option.splits node.splits)
  have n: "navigate (rdir rp) True s1 = (Inr (Some (rdir rp)), s1)"
    using navigate_from_existing [of s1 "[]" "rdir rp" e True] e
    by (simp add: navigate_def getRoot_def)
  have "\<exists>t s'. write_sidecar P (rdir rp) (rfile rp)
              \<lparr>headers = headers r2, status = status r2, statusText = statusText r2\<rparr> s1 =
                (Inr (), t) \<and>
           write_data (rdir rp) (rfile rp) (body r2) t = (Inr (), s')"
    by (rule write_files_succeeds [OF e nd])
  then obtain t s2 where "write_sidecar P (rdir rp) (rfile rp)
              \<lparr>headers = headers r2, status = status r2, statusText = statusText r2\<rparr> s1 =
                (Inr (), t)"
    and "write_data (rdir rp) (rfile rp) (body r2) t = (Inr (), s2)"
    by blast
  with n rp nb have p2: "cache_put P request r2 s1 = (Inr (), s2)"
    by (simp add: cache_put_def fs_write_def write_sidecar_phase_def)
  from p2 rp have w2: "fs_write P (rdir rp) (rfile rp) (body r2)
              \<lparr>headers = headers r2, status = status r2, statusText = statusText r2\<rparr> s1 = (Inr (), s2)"
    by (auto simp: cache_put_def split: if_splits)
  from fs_write_Inr [OF w2] obtain e2 where e2: "get_dir s2 (rdir rp) = Some e2"
    and f2: "map_of e2 (rfile rp) = Some (File (case body r2 of None \<Rightarrow> [] | Some b \<Rightarrow> b))"
    and m2: "map_of e2 (rfile rp @ META_SUFFIX) = Some (File (json_stringify P
           \<lparr>headers = headers r2, status = status r2, statusText = statusText r2\<rparr>))"
    by blast
  have mt: "fst (cache_match P request s2) =
             Inr (Some \<lparr>headers = headers r2, status = status r2, statusText = statusText r2,
                         body = Some (body_bytes r2), bodyUsed = False\<rparr>)"
    using ok
    by (auto simp: cache_match_def new_Response_def rp fs_readEntry_at [OF e2] f2 m2 js
        body_bytes_def)
  from put_then_list(2) [OF wf1 p2 rp] p2 rp mt show ?thesis by blast
qed

section \<open>Listing completeness for the other keys\<close>

lemma stored_file_update_File:
  assumes "get_dir s h = Some e" and "\<not> is_directory (map_of e n)"
  shows "stored_file (upd_dir h (AList.update n (File c)) s) p = (p = h @ [n] \<or> stored_file s p)"
  using assms
proof (induction h arbitrary: s p)
  case Nil
  then have nd: "\<not> is_directory (map_of s n)" by simp
  show ?case
  proof (cases p)
    case Nil
    then show ?thesis by simp
  next
    case (Cons m ms)
    show ?thesis
    proof (cases ms)
      case Nil
      with Cons show ?thesis by (auto simp: update_conv' is_file_def)
    next
      case (Cons m' ms')
      with \<open>p = m # ms\<close> nd show ?thesis
        by (auto simp: update_conv' is_directory_def split: option.splits node.splits)
    qed
  qed
next
  case (Cons k ks)
  from Cons.prems(1) obtain sub where k: "map_of s k = Some (Dir sub)"
    and sub: "get_dir sub ks = Some e"
    by (auto split: option.splits node.splits)
  note IH = Cons.IH [OF sub Cons.prems(2)]
  show ?case
  proof (cases p)
    case Nil
    then show ?thesis by simp
  next
    case (Cons m ms)
    show ?thesis
    proof (cases ms)
      case Nil
      with Cons k show ?thesis by (auto simp: update_conv' is_file_def)
    next
      case (Cons m' ms')
      with \<open>p = m # ms\<close> k IH [of "m' # ms'"] show ?thesis
        by (auto simp: update_conv' split: option.splits node.splits)
    qed
  qed
qed

lemma stored_file_update_new_Dir:
  assumes "get_dir s h = Some e" and "map_of e n = None"
  shows "stored_file (upd_dir h (AList.update n (Dir [])) s) p = stored_file s p"
  using assms
proof (induction h arbitrary: s p)
  case Nil
  then have nn: "map_of s n = None" by simp
  show ?case
  proof (cases p)
    case Nil
    then show ?thesis by simp
  next
    case (Cons m ms)
    show ?thesis
    proof (cases ms)
      case Nil
      with Cons nn show ?thesis by (auto simp: update_conv' is_file_def)
    next
      case (Cons m' ms')
      with \<open>p = m # ms\<close> nn show ?thesis
        by (auto simp: update_conv' stored_file_Nil split: option.splits node.splits)
    qed
  qed
next
  case (Cons k ks)
  from Cons.prems(1) obtain sub where k: "map_of s k = Some (Dir sub)"
    and sub: "get_dir sub ks = Some e"
    by (auto split: option.splits node.splits)
  note IH = Cons.IH [OF sub Cons.prems(2)]
  show ?case
  proof (cases p)
    case Nil
    then show ?thesis by simp
  next
    case (Cons m ms)
    show ?thesis
    proof (cases ms)
      case Nil
      with Cons k show ?thesis by (auto simp: update_conv' is_file_def)
    next
      case (Cons m' ms')
      with \<open>p = m # ms\<close> k IH [of "m' # ms'"] show ?thesis
        by (auto simp: update_conv' split: option.splits node.splits)
    qed
  qed
qed

lemma stored_file_getDirectoryHandle:
  "getDirectoryHandle h n c s = (r, s') \<Longrightarrow> stored_file s' p = stored_file s p"
  by (auto simp: getDirectoryHandle_def stored_file_update_new_Dir
      split: option.splits node.splits if_splits)

lemma stored_file_navigate_from:
  "navigate_from h segs c s = (r, s') \<Longrightarrow> stored_file s' p = stored_file s p"
proof (induction segs arbitrary: h s)
  case Nil
  then show ?case by simp
next
  case (Cons seg segs)
  obtain r1 s1 where g: "getDirectoryHandle h seg c s = (r1, s1)" by fastforce
  then have "stored_file s1 p = stored_file s p" by (rule stored_file_getDirectoryHandle)
  with Cons g show ?case
    by (auto split: sum.splits if_splits)
qed

lemma stored_file_getFileHandle:
  assumes "getFileHandle h n c s = (Inr fh, s')"
  shows "stored_file s' p = (p = h @ [n] \<or> stored_file s p)"
proof -
  from assms obtain e where e: "get_dir s h = Some e"
    by (auto simp: getFileHandle_def split: option.splits)
  show ?thesis
  proof (cases "map_of e n")
    case None
    with assms e have "s' = upd_dir h (AList.update n (File [])) s"
      by (auto simp: getFileHandle_def split: if_splits)
    with e None show ?thesis
      by (simp add: stored_file_update_File is_directory_def)
  next
    case (Some x)
    with assms e obtain t where "x = File t" and s': "s' = s"
      by (cases x) (auto simp: getFileHandle_def)
    with e Some have "stored_file s (h @ [n])"
      by (simp add: stored_file_snoc data_file_exists_def is_file_def)
    with s' show ?thesis by auto
  qed
qed

lemma stored_file_writeAndClose:
  assumes "writeAndClose (h, n) c s = (Inr u, s')"
  shows "stored_file s' p = (p = h @ [n] \<or> stored_file s p)"
proof -
  from assms obtain e t where e: "get_dir s h = Some e" and m: "map_of e n = Some (File t)"
    and s': "s' = upd_dir h (AList.update n (File c)) s"
    by (auto simp: writeAndClose_def split: option.splits node.splits)
  from m have "\<not> is_directory (map_of e n)" by (simp add: is_directory_def)
  with e s' show ?thesis by (simp add: stored_file_update_File)
qed

text \<open>
  The files of the storage after a successful \<^verbatim>\<open>write\<close>: those it had, the data file
  and the sidecar.
\<close>

lemma stored_file_fs_write:
  assumes "fs_write P dirSegments fileName bdy meta s = (Inr u, s')"
  shows "stored_file s' p =
           (p = dirSegments @ [fileName] \<or> p = dirSegments @ [fileName @ META_SUFFIX] \<or>
            stored_file s p)"
proof -
  from assms obtain d s2 where ph: "write_sidecar_phase P dirSegments fileName meta s = (Inr d, s2)"
    and wd: "write_data d fileName bdy s2 = (Inr u, s')"
    by (auto simp: fs_write_def split: prod.splits sum.splits)
  from ph obtain s0 u0 where n: "navigate dirSegments True s = (Inr (Some d), s0)"
    and ws: "write_sidecar P d fileName meta s0 = (Inr u0, s2)"
    by (auto simp: write_sidecar_phase_def split: prod.splits sum.splits option.splits)
  from write_sidecar_phase_Inr [OF ph] have d: "d = dirSegments" by simp
  from n have 0: "stored_file s0 p = stored_file s p"
    by (auto simp: navigate_def dest: stored_file_navigate_from)
  from ws obtain fh s1 where g: "getFileHandle d (fileName @ META_SUFFIX) True s0 = (Inr fh, s1)"
    and w: "writeAndClose fh (json_stringify P meta) s1 = (Inr u0, s2)"
    by (auto simp: write_sidecar_def split: prod.splits sum.splits)
  from getFileHandle_Inr [OF g] have fh: "fh = (d, fileName @ META_SUFFIX)" by simp
  from stored_file_getFileHandle [OF g] stored_file_writeAndClose [OF w [unfolded fh]]
  have 2: "stored_file s2 p = (p = d @ [fileName @ META_SUFFIX] \<or> stored_file s0 p)"
    by auto
  from wd obtain fh2 s3 where g2: "getFileHandle d fileName True s2 = (Inr fh2, s3)"
    and w2: "writeAndClose fh2 (case bdy of None \<Rightarrow> [] | Some b \<Rightarrow> b) s3 = (Inr u, s')"
    by (auto simp: write_data_def split: prod.splits sum.splits option.splits)
  from getFileHandle_Inr [OF g2] have fh2: "fh2 = (d, fileName)" by simp
  from stored_file_getFileHandle [OF g2] stored_file_writeAndClose [OF w2 [unfolded fh2]]
  have 3: "stored_file s' p = (p = d @ [fileName] \<or> stored_file s2 p)"
    by auto
  from 0 2 3 d show ?thesis by auto
qed

text \<open>
  One \<^verbatim>\<open>put\<close> on a well-formed storage adds the path of its entry to what
  \<^verbatim>\<open>list\<close> returns, unless the file name ends in ".meta", and changes nothing else
  in it.
\<close>

lemma put_changes_list_by_one:
  assumes wf: "wf_dirents s"
    and put1: "cache_put P request rsp s = (Inr u, s')"
    and rp: "resolvePath P request = Inr rp"
  shows "count (mset (walk s' [])) q =
           (if q = rdir rp @ [rfile rp] \<and> \<not> endsWith (rfile rp) META_SUFFIX then 1
            else count (mset (walk s [])) q)"
proof -
  from put1 rp have w: "fs_write P (rdir rp) (rfile rp) (body rsp)
              \<lparr>headers = headers rsp, status = status rsp, statusText = statusText rsp\<rparr> s = (Inr u, s')"
    by (auto simp: cache_put_def split: if_splits)
  from wf w have wf': "wf_dirents s'" by (rule wf_fs_write)
  have a: "count (mset (walk s' [])) q =
             (if stored_file s' q \<and> \<not> endsWith (last q) META_SUFFIX then 1 else 0)"
    using walk_count [OF wf', of "[]" q] by simp
  have b: "count (mset (walk s [])) q =
             (if stored_file s q \<and> \<not> endsWith (last q) META_SUFFIX then 1 else 0)"
    using walk_count [OF wf, of "[]" q] by simp
  have c: "stored_file s' q =
           (q = rdir rp @ [rfile rp] \<or> q = rdir rp @ [rfile rp @ META_SUFFIX] \<or> stored_file s q)"
    by (rule stored_file_fs_write [OF w])
  have d: "endsWith (last (rdir rp @ [rfile rp @ META_SUFFIX])) META_SUFFIX"
    by (simp add: endsWith_def)
  show ?thesis
    unfolding a b c using d by auto
qed

lemma wf_cache_put:
  "wf_dirents s \<Longrightarrow> cache_put P request rsp s = (r, s') \<Longrightarrow> wf_dirents s'"
  by (auto simp: cache_put_def split: if_splits sum.splits dest: wf_fs_write)

lemma put_all_changes_list:
  assumes "wf_dirents s"
    and "put_all P puts s = (Inr u, s')"
    and "map (\<lambda>(k, r). resolvePath P k) puts = map Inr rps"
    and "\<forall>rp \<in> set rps. \<not> endsWith (rfile rp) META_SUFFIX"
  shows "count (mset (walk s' [])) q =
           (if q \<in> set (map (\<lambda>rp. rdir rp @ [rfile rp]) rps) then 1
            else count (mset (walk s [])) q)"
  using assms
proof (induction puts arbitrary: s rps)
  case Nil
  then show ?case by simp
next
  case (Cons kr puts)
  obtain k r where kr: "kr = (k, r)" by (cases kr)
  from Cons.prems(3) kr obtain rp rps' where rps: "rps = rp # rps'"
    and rp: "resolvePath P k = Inr rp"
    and rest: "map (\<lambda>(k, r). resolvePath P k) puts = map Inr rps'"
    by (cases rps) auto
  from Cons.prems(2) kr obtain s1 where p1: "cache_put P k r s = (Inr (), s1)"
    and pa: "put_all P puts s1 = (Inr u, s')"
    by (auto split: prod.splits sum.splits)
  from Cons.prems(1) p1 have wf1: "wf_dirents s1" by (rule wf_cache_put)
  from Cons.prems(4) rps have nm: "\<not> endsWith (rfile rp) META_SUFFIX"
    and nms: "\<forall>rp \<in> set rps'. \<not> endsWith (rfile rp) META_SUFFIX"
    by simp_all
  have one: "count (mset (walk s1 [])) q =
           (if q = rdir rp @ [rfile rp] then 1 else count (mset (walk s [])) q)"
    using put_changes_list_by_one [OF Cons.prems(1) p1 rp, of q] nm by simp
  from Cons.IH [OF wf1 pa rest nms] one rps show ?case by auto
qed

lemma resolved_path_inj:
  "inj (\<lambda>rp :: resolved_path. rdir rp @ [rfile rp])"
  by (rule injI) simp

text \<open>
  Listing completeness for keys whose file names do not end in ".meta": after \<open>N\<close>
  keys with distinct resolved paths have been put into the empty cache, \<^verbatim>\<open>list\<close>
  returns exactly their \<open>N\<close> paths and \<^verbatim>\<open>keys()\<close> returns \<open>N\<close> entries.
\<close>

lemma keys_after_puts:
  assumes "put_all P puts [] = (Inr u, s')"
    and "map (\<lambda>(k, r). resolvePath P k) puts = map Inr rps"
    and "distinct rps"
    and "\<forall>rp \<in> set rps. \<not> endsWith (rfile rp) META_SUFFIX"
  shows "mset (walk s' []) = mset (map (\<lambda>rp. rdir rp @ [rfile rp]) rps)"
    and "\<exists>ks. cache_keys P None s' = (Inr ks, s') \<and> length ks = length puts"
proof -
  have d: "distinct (map (\<lambda>rp. rdir rp @ [rfile rp]) rps)"
    using assms(3) resolved_path_inj by (simp add: distinct_map inj_on_def inj_def)
  have wf: "wf_dirents []" by simp
  show m: "mset (walk s' []) = mset (map (\<lambda>rp. rdir rp @ [rfile rp]) rps)"
  proof (rule multiset_eqI)
    fix q
    from put_all_changes_list [OF wf assms(1) assms(2) assms(4), of q] d
    show "count (mset (walk s' [])) q = count (mset (map (\<lambda>rp. rdir rp @ [rfile rp]) rps)) q"
      by (auto simp: distinct_count_atmost_1 count_eq_zero_iff)
  qed
  from m have "length (walk s' []) = length rps"
    by (metis length_map size_mset)
  moreover from assms(2) have "length rps = length puts"
    by (metis length_map)
  ultimately show "\<exists>ks. cache_keys P None s' = (Inr ks, s') \<and> length ks = length puts"
    by (simp add: cache_keys_def fs_list_def)
qed

lemma js_split_nonempty: "js_split sep s \<noteq> []"
  by (induction s) (auto split: list.splits)

lemma js_split_no_sep: "w \<in> set (js_split sep s) \<Longrightarrow> sep \<notin> set w"
proof (induction s arbitrary: w)
  case Nil
  then show ?case by simp
next
  case (Cons c cs)
  show ?case
  proof (cases "c = sep")
    case True
    with Cons show ?thesis by auto
  next
    case False
    obtain v vs where v: "js_split sep cs = v # vs"
      using js_split_nonempty [of sep cs] by (cases "js_split sep cs") auto
    with Cons.prems False have "w = c # v \<or> w \<in> set vs" by auto
    with Cons.IH v False show ?thesis by auto
  qed
qed

lemma js_split_app:
  "sep \<notin> set x \<Longrightarrow> js_split sep (x @ sep # rest) = x # js_split sep rest"
  by (induction x) auto

lemma js_split_single:
  "sep \<notin> set x \<Longrightarrow> js_split sep x = [x]"
  by (induction x) auto

lemma js_join_Cons:
  "ws \<noteq> [] \<Longrightarrow> js_join sep (x # ws) = x @ sep @ js_join sep ws"
  by (cases ws) simp_all

lemma js_split_join:
  assumes "segs \<noteq> []" and "\<forall>w \<in> set segs. c \<notin> set w"
  shows "js_split c (js_join [c] segs) = segs"
  using assms
proof (induction segs rule: induct_list012)
  case 1
  then show ?case by simp
next
  case (2 x)
  then show ?case by (simp add: js_split_single)
next
  case (3 x y zs)
  then have "js_split c (js_join [c] (y # zs)) = y # zs" by simp
  moreover from 3 have "c \<notin> set x" by simp
  ultimately show ?case
    using js_split_app [of c x "js_join [c] (y # zs)"] by simp
qed

lemma js_join_snoc_append:
  "segs \<noteq> [] \<Longrightarrow> js_join sep (butlast segs @ [last segs @ q]) = js_join sep segs @ q"
proof (induction segs rule: induct_list012)
  case 1
  then show ?case by simp
next
  case (2 x)
  then show ?case by simp
next
  case (3 x y zs)
  then have "js_join sep (butlast (y # zs) @ [last (y # zs) @ q]) = js_join sep (y # zs) @ q"
    by simp
  then show ?case by (simp add: js_join_Cons)
qed

lemma js_join_chars:
  "set (js_join [c] xs) \<subseteq> {c} \<union> \<Union> (set ` set xs)"
  by (induction xs rule: induct_list012) auto

lemma js_split_chars:
  "v \<in> set (js_split sep s) \<Longrightarrow> set v \<subseteq> set s"
proof (induction s arbitrary: v)
  case Nil
  then show ?case by simp
next
  case (Cons c cs)
  obtain u us where u: "js_split sep cs = u # us"
    using js_split_nonempty [of sep cs] by (cases "js_split sep cs") auto
  have hd: "set u \<subseteq> set cs" using Cons.IH [of u] u by simp
  have tl: "w \<in> set us \<Longrightarrow> set w \<subseteq> set cs" for w using Cons.IH [of w] u by simp
  from Cons.prems u have "v = [] \<or> v = c # u \<or> v = u \<or> v \<in> set us"
    by (auto split: if_splits)
  with hd tl show ?case by auto
qed

lemma path_segments_props:
  "w \<in> set (path_segments p) \<Longrightarrow> w \<noteq> [] \<and> CHR ''/'' \<notin> set w \<and> set w \<subseteq> set p"
  by (auto simp: path_segments_def dest: js_split_no_sep js_split_chars)

lemma path_segments_rooted_join:
  assumes "segs \<noteq> []" and "\<forall>w \<in> set segs. w \<noteq> [] \<and> CHR ''/'' \<notin> set w"
  shows "path_segments (''/'' @ js_join ''/'' segs) = segs"
proof -
  have "js_split (CHR ''/'') (''/'' @ js_join ''/'' segs) = [] # segs"
    using js_split_app [of "CHR ''/''" "[]" "js_join ''/'' segs"]
      js_split_join [OF assms(1), of "CHR ''/''"] assms(2)
    by simp
  then show ?thesis
    using assms(2) by (simp add: path_segments_def filter_id_conv)
qed

lemma pathname_search_raw:
  assumes "CHR ''?'' \<notin> set pre" and "q = [] \<or> hd q = CHR ''?''"
    and "url_parse P (pre @ q) = None"
  shows "pathname_search P (Str (pre @ q)) = Inr (pre, q)"
proof (cases q)
  case Nil
  with assms show ?thesis
    by (simp add: pathname_search_def indexOf_def)
next
  case (Cons c cs)
  with assms(2) have c: "c = CHR ''?''" by simp
  have "takeWhile (\<lambda>x. x \<noteq> CHR ''?'') (pre @ q) = pre @ takeWhile (\<lambda>x. x \<noteq> CHR ''?'') q"
    using assms(1) by (intro takeWhile_append2) auto
  then have tw: "takeWhile (\<lambda>x. x \<noteq> CHR ''?'') (pre @ q) = pre"
    using Cons c by simp
  have "indexOf (pre @ q) (CHR ''?'') = Some (length pre)"
    unfolding indexOf_def tw using Cons c by simp
  with assms(3) show ?thesis
    by (simp add: pathname_search_def)
qed

text \<open>
  A path that \<^verbatim>\<open>keys\<close> returns for a stored key resolves, as a string key, to the
  \<^verbatim>\<open>dir\<close> and \<^verbatim>\<open>file\<close> of that key. The pathname of the key is taken to hold no
  "?" and its search string to be empty or to start with "?", as the URL parser and
  the raw-string branch of \<^verbatim>\<open>resolvePath\<close> provide; a string that starts with "/" is
  not an absolute URL.
\<close>

lemma listed_path_resolves_to_key:
  assumes rp: "resolvePath P k = Inr rp"
    and ps: "pathname_search P k = Inr (p, q)"
    and np: "CHR ''?'' \<notin> set p"
    and qs: "q = [] \<or> hd q = CHR ''?''"
    and nu: "url_parse P (''/'' @ js_join ''/'' (rdir rp @ [rfile rp])) = None"
  shows "resolvePath P (Str (''/'' @ js_join ''/'' (rdir rp @ [rfile rp]))) = Inr rp"
proof -
  define segs where "segs = path_segments p"
  define pre where "pre = ''/'' @ js_join ''/'' segs"
  from rp ps have ne: "segs \<noteq> []"
    and nd: "\<not> list_ex (\<lambda>seg. seg = ''.'' \<or> seg = ''..'') segs"
    and rpe: "rp = \<lparr>rdir = butlast segs, rfile = last segs @ q\<rparr>"
    by (auto simp: resolvePath_def Let_def segs_def split: if_splits)
  have props: "\<forall>w \<in> set segs. w \<noteq> [] \<and> CHR ''/'' \<notin> set w"
    using path_segments_props unfolding segs_def by blast
  have noq: "CHR ''?'' \<notin> set pre"
  proof -
    have "set (js_join ''/'' segs) \<subseteq> {CHR ''/''} \<union> \<Union> (set ` set segs)"
      by (rule js_join_chars)
    moreover have "\<Union> (set ` set segs) \<subseteq> set p"
      using path_segments_props unfolding segs_def by blast
    ultimately show ?thesis using np unfolding pre_def by auto
  qed
  have path: "''/'' @ js_join ''/'' (rdir rp @ [rfile rp]) = pre @ q"
    using ne by (simp add: rpe js_join_snoc_append pre_def)
  have a: "pathname_search P (Str (pre @ q)) = Inr (pre, q)"
    using noq qs nu [unfolded path] by (rule pathname_search_raw)
  have b: "path_segments pre = segs"
    unfolding pre_def using path_segments_rooted_join [OF ne props] .
  show ?thesis
    unfolding path using a b ne nd by (simp add: resolvePath_def rpe Let_def)
qed

section \<open>Keys whose file name ends in ".meta"\<close>

text \<open>
  For keys whose file names do not end in ".meta" the listing is complete
  (\<open>keys_after_puts\<close>), every listed path resolves back to its key
  (\<open>listed_path_resolves_to_key\<close>) and no sidecar is listed (\<open>walk_no_sidecar\<close>). A
  data file whose name ends in ".meta" is taken for a sidecar by \<^verbatim>\<open>walk\<close>, although
  \<^verbatim>\<open>put\<close>, \<^verbatim>\<open>match\<close> and \<^verbatim>\<open>keys(request)\<close> treat it as the entry it is.
\<close>

text \<open>
  Claim C2 at a key whose file name ends in ".meta". After \<^verbatim>\<open>put("/a.meta", R)\<close> on
  the empty cache one key is stored: \<^verbatim>\<open>match\<close> finds it and \<^verbatim>\<open>keys("/a.meta")\<close>
  reports it, but \<^verbatim>\<open>keys()\<close> returns no entry. After \<^verbatim>\<open>put("/a", R)\<close> and
  \<^verbatim>\<open>put("/a.meta", R')\<close>, two keys have been put and \<^verbatim>\<open>keys()\<close> returns one
  entry.
\<close>

theorem keys_omits_meta_named_entry:
  "cache_put demo (Str ''/a.meta'') rsp_ok [] =
     (Inr (), [(''a.meta.meta'', File ''{headers:{content-type:text/plain},status:200,statusText:OK}''),
               (''a.meta'', File ''0110'')]) \<and>
   cache_keys demo None
       [(''a.meta.meta'', File ''{headers:{content-type:text/plain},status:200,statusText:OK}''),
        (''a.meta'', File ''0110'')] =
     (Inr [], [(''a.meta.meta'', File ''{headers:{content-type:text/plain},status:200,statusText:OK}''),
               (''a.meta'', File ''0110'')]) \<and>
   cache_keys demo (Some (Str ''/a.meta''))
       [(''a.meta.meta'', File ''{headers:{content-type:text/plain},status:200,statusText:OK}''),
        (''a.meta'', File ''0110'')] =
     (Inr [''/a.meta''],
      [(''a.meta.meta'', File ''{headers:{content-type:text/plain},status:200,statusText:OK}''),
       (''a.meta'', File ''0110'')]) \<and>
   fst (cache_match demo (Str ''/a.meta'')
       [(''a.meta.meta'', File ''{headers:{content-type:text/plain},status:200,statusText:OK}''),
        (''a.meta'', File ''0110'')]) =
     Inr (Some \<lparr>headers = [(''content-type'', ''text/plain'')], status = 200, statusText = ''OK'',
                 body = Some ''0110'', bodyUsed = False\<rparr>) \<and>
   fst (cache_keys demo None
     (snd (cache_put demo (Str ''/a.meta'') rsp_created
        (snd (cache_put demo (Str ''/a'') rsp_ok []))))) = Inr [''/a'']"
  by (simp add: cache_defs adapter_defs storage_defs resolve_defs demo_defs)

text \<open>
  Claim C9 at the same kind of key. \<^verbatim>\<open>put("/a.meta", R1)\<close> and then
  \<^verbatim>\<open>put("/a.meta", R2)\<close> leave one data file and one sidecar, and \<^verbatim>\<open>match\<close> returns
  the body and metadata of \<open>R2\<close>; but \<^verbatim>\<open>keys()\<close> lists the key not once but never.
\<close>

theorem overwritten_meta_named_entry_not_listed:
  "cache_put demo (Str ''/a.meta'') rsp_created
     (snd (cache_put demo (Str ''/a.meta'') rsp_ok [])) =
     (Inr (), [(''a.meta.meta'', File ''{headers:{},status:201,statusText:Created}''),
               (''a.meta'', File [])]) \<and>
   fst (cache_match demo (Str ''/a.meta'')
       [(''a.meta.meta'', File ''{headers:{},status:201,statusText:Created}''),
        (''a.meta'', File [])]) =
     Inr (Some \<lparr>headers = [], status = 201, statusText = ''Created'',
                 body = Some [], bodyUsed = False\<rparr>) \<and>
   fst (cache_keys demo None
       [(''a.meta.meta'', File ''{headers:{},status:201,statusText:Created}''),
        (''a.meta'', File [])]) = Inr []"
  by (simp add: cache_defs adapter_defs storage_defs resolve_defs demo_defs)

end
